theory Spec2Isabelle
  imports Main
begin

section \<open>Python values used by the two source files\<close>

text \<open>
  A Python \<open>str\<close> is a finite sequence of Unicode code points; \<open>ord\<close> reads a code
  point as a non-negative integer. A code point is modelled as a natural number, so a
  string is a \<open>nat list\<close>; the two searches that never call \<open>ord\<close> are polymorphic in
  the element type. Python integers are unbounded: \<open>int\<close>. An exception of the source is
  a value \<open>Inl e\<close>; a loop whose termination depends on the data it reads is a
  \<open>partial_function\<close> in the option monad, \<open>None\<close> meaning that it does not return.
\<close>

datatype py_error = IndexError | ZeroDivisionError

type_synonym pystr = "nat list"

definition py_ord :: "nat \<Rightarrow> int" where
  "py_ord c = int c"

definition str :: "string \<Rightarrow> pystr" where
  "str s = map of_char s"

definition py_index :: "'a list \<Rightarrow> int \<Rightarrow> py_error + 'a" where
  \<comment> \<open>\<open>xs[i]\<close>: a negative index counts from the end, out of range raises.\<close>
  "py_index xs i =
     (if 0 \<le> i \<and> i < int (length xs) then Inr (xs ! nat i)
      else if i < 0 \<and> - int (length xs) \<le> i then Inr (xs ! nat (int (length xs) + i))
      else Inl IndexError)"

definition py_setitem :: "'a list \<Rightarrow> int \<Rightarrow> 'a \<Rightarrow> py_error + 'a list" where
  \<comment> \<open>\<open>xs[i] = v\<close> on a list.\<close>
  "py_setitem xs i v =
     (if 0 \<le> i \<and> i < int (length xs) then Inr (xs[nat i := v])
      else if i < 0 \<and> - int (length xs) \<le> i then Inr (xs[nat (int (length xs) + i) := v])
      else Inl IndexError)"

definition py_slice :: "'a list \<Rightarrow> int \<Rightarrow> int \<Rightarrow> 'a list" where
  \<comment> \<open>\<open>xs[a:b]\<close> for \<open>0 \<le> a\<close> and \<open>0 \<le> b\<close>, the only slices with two bounds in the source.\<close>
  "py_slice xs a b = take (nat b - nat a) (drop (nat a) xs)"

definition dict_get :: "('k \<rightharpoonup> 'v) \<Rightarrow> 'k \<Rightarrow> 'v \<Rightarrow> 'v" where
  "dict_get d k dflt = (case d k of None \<Rightarrow> dflt | Some v \<Rightarrow> v)"

definition dict_setdefault :: "('k \<rightharpoonup> 'v) \<Rightarrow> 'k \<Rightarrow> 'v \<Rightarrow> ('k \<rightharpoonup> 'v)" where
  "dict_setdefault d k v = (case d k of None \<Rightarrow> d(k \<mapsto> v) | Some _ \<Rightarrow> d)"

section \<open>task\_02.py: float\_binary\_search\<close>

text \<open>
  The loop only compares elements with \<open>>=\<close>, so the elements are taken from any linear
  order (floats without NaN, integers). One pass of the loop body is \<open>fbs_body\<close>; the
  state is \<open>(low, high, iterations, upper_bound)\<close>.
\<close>

type_synonym 'a fbs_state = "int \<times> int \<times> int \<times> 'a option"

definition fbs_body :: "'a::linorder list \<Rightarrow> 'a \<Rightarrow> 'a fbs_state \<Rightarrow> py_error + 'a fbs_state" where
  "fbs_body arr x s =
     (case s of (low, high, iterations, upper_bound) \<Rightarrow>
        let iterations = iterations + 1;
            mid = (low + high) div 2
        in case py_index arr mid of
             Inl e \<Rightarrow> Inl e
           | Inr a \<Rightarrow>
               if a \<ge> x then Inr (low, mid - 1, iterations, Some a)
               else Inr (mid + 1, high, iterations, upper_bound))"

function fbs_loop :: "'a::linorder list \<Rightarrow> 'a \<Rightarrow> 'a fbs_state \<Rightarrow> py_error + 'a fbs_state" where
  "fbs_loop arr x s =
     (case s of (low, high, iterations, upper_bound) \<Rightarrow>
        if low \<le> high then
          (case fbs_body arr x s of Inl e \<Rightarrow> Inl e | Inr s' \<Rightarrow> fbs_loop arr x s')
        else Inr s)"
  by pat_completeness auto
termination
proof (relation "measure (\<lambda>(arr, x, low, high, iterations, upper_bound). nat (high - low + 1))")
  show "wf (measure (\<lambda>(arr, x, low, high, iterations, upper_bound). nat (high - low + 1)))"
    by simp
next
  fix arr :: "'a list" and x :: 'a and s :: "'a fbs_state" and low x2 high y iterations upper_bound s'
  assume "(low, x2) = s" "(high, y) = x2" "(iterations, upper_bound) = y" "low \<le> high"
    and "fbs_body arr x s = Inr s'"
  then show "((arr, x, s'), (arr, x, s))
      \<in> measure (\<lambda>(arr, x, low, high, iterations, upper_bound). nat (high - low + 1))"
    by (auto simp: fbs_body_def Let_def split: sum.splits if_splits)
qed

declare fbs_loop.simps [simp del]

definition float_binary_search :: "'a::linorder list \<Rightarrow> 'a \<Rightarrow> py_error + (int \<times> 'a option)" where
  "float_binary_search arr x =
     (let low = 0; high = int (length arr) - 1; iterations = 0; upper_bound = None
      in case fbs_loop arr x (low, high, iterations, upper_bound) of
           Inl e \<Rightarrow> Inl e
         | Inr (low, high, iterations, upper_bound) \<Rightarrow> Inr (iterations, upper_bound))"

text \<open>
  The comparisons \<open>arr[mid] >= x\<close> that the loop performs, in order, as the list of the
  left operands: the same loop, iterating the same body, recording the element read.
\<close>

function fbs_comparisons :: "'a::linorder list \<Rightarrow> 'a \<Rightarrow> 'a fbs_state \<Rightarrow> 'a list" where
  "fbs_comparisons arr x s =
     (case s of (low, high, iterations, upper_bound) \<Rightarrow>
        if low \<le> high then
          (case fbs_body arr x s of
             Inl e \<Rightarrow> []
           | Inr s' \<Rightarrow>
               (case py_index arr ((low + high) div 2) of
                  Inl e \<Rightarrow> []
                | Inr a \<Rightarrow> a # fbs_comparisons arr x s'))
        else [])"
  by pat_completeness auto
termination
proof (relation "measure (\<lambda>(arr, x, low, high, iterations, upper_bound). nat (high - low + 1))")
  show "wf (measure (\<lambda>(arr, x, low, high, iterations, upper_bound). nat (high - low + 1)))"
    by simp
next
  fix arr :: "'a list" and x :: 'a and s :: "'a fbs_state" and low x2 high y iterations upper_bound s' a
  assume "(low, x2) = s" "(high, y) = x2" "(iterations, upper_bound) = y" "low \<le> high"
    and "fbs_body arr x s = Inr s'"
  then show "((arr, x, s'), (arr, x, s))
      \<in> measure (\<lambda>(arr, x, low, high, iterations, upper_bound). nat (high - low + 1))"
    by (auto simp: fbs_body_def Let_def split: sum.splits if_splits)
qed

declare fbs_comparisons.simps [simp del]

section \<open>task\_03.py: Boyer-Moore with the bad-character table\<close>

fun shift_table_loop :: "'a list \<Rightarrow> int \<Rightarrow> int \<Rightarrow> ('a \<rightharpoonup> int) \<Rightarrow> ('a \<rightharpoonup> int)" where
  \<comment> \<open>\<open>for index, char in enumerate(...)\<close>, from the index given.\<close>
  "shift_table_loop [] len index table = table"
| "shift_table_loop (char # rest) len index table =
     shift_table_loop rest len (index + 1) (table(char \<mapsto> len - index - 1))"

definition build_shift_table :: "'a list \<Rightarrow> py_error + ('a \<rightharpoonup> int)" where
  \<comment> \<open>\<open>pattern[:-1]\<close> is \<open>butlast\<close> (empty on the empty pattern); \<open>pattern[-1]\<close> raises on it.\<close>
  "build_shift_table pattern =
     (let table = Map.empty;
          len = int (length pattern);
          table = shift_table_loop (butlast pattern) len 0 table
      in case py_index pattern (- 1) of
           Inl e \<Rightarrow> Inl e
         | Inr c \<Rightarrow> Inr (dict_setdefault table c len))"

function bm_compare :: "'a list \<Rightarrow> 'a list \<Rightarrow> int \<Rightarrow> int \<Rightarrow> py_error + int" where
  \<comment> \<open>The inner \<open>while j >= 0 and text[i + j] == pattern[j]\<close>; returns the final \<open>j\<close>.\<close>
  "bm_compare text pattern i j =
     (if j \<ge> 0 then
        (case py_index text (i + j) of
           Inl e \<Rightarrow> Inl e
         | Inr a \<Rightarrow>
            (case py_index pattern j of
               Inl e \<Rightarrow> Inl e
             | Inr b \<Rightarrow> if a = b then bm_compare text pattern i (j - 1) else Inr j))
      else Inr j)"
  by pat_completeness auto
termination
  by (relation "measure (\<lambda>(text, pattern, i, j). nat (j + 1))") auto

declare bm_compare.simps [simp del]

partial_function (option) bm_loop ::
  "'a list \<Rightarrow> 'a list \<Rightarrow> ('a \<rightharpoonup> int) \<Rightarrow> int \<Rightarrow> (py_error + int) option" where
  [code]: "bm_loop text pattern shift_table i =
     (let pat_len = int (length pattern); text_len = int (length text) in
      if i \<le> text_len - pat_len then
        (case bm_compare text pattern i (pat_len - 1) of
           Inl e \<Rightarrow> Some (Inl e)
         | Inr j \<Rightarrow>
            if j < 0 then Some (Inr i)
            else (case py_index text (i + int (length pattern) - 1) of
                    Inl e \<Rightarrow> Some (Inl e)
                  | Inr c \<Rightarrow> bm_loop text pattern shift_table
                               (i + dict_get shift_table c (int (length pattern)))))
      else Some (Inr (- 1)))"

definition boyer_moore_search :: "'a list \<Rightarrow> 'a list \<Rightarrow> (py_error + int) option" where
  "boyer_moore_search text pattern =
     (if pattern = [] \<or> text = [] then Some (Inr (- 1))
      else case build_shift_table pattern of
             Inl e \<Rightarrow> Some (Inl e)
           | Inr shift_table \<Rightarrow> bm_loop text pattern shift_table 0)"

section \<open>task\_03.py: Knuth-Morris-Pratt\<close>

partial_function (option) lps_loop ::
  "'a list \<Rightarrow> int list \<Rightarrow> int \<Rightarrow> int \<Rightarrow> (py_error + int list) option" where
  [code]: "lps_loop pattern lps len i =
     (if i < int (length pattern) then
        (case py_index pattern i of
           Inl e \<Rightarrow> Some (Inl e)
         | Inr a \<Rightarrow>
            (case py_index pattern len of
               Inl e \<Rightarrow> Some (Inl e)
             | Inr b \<Rightarrow>
                if a = b then
                  (let len = len + 1 in
                   case py_setitem lps i len of
                     Inl e \<Rightarrow> Some (Inl e)
                   | Inr lps \<Rightarrow> lps_loop pattern lps len (i + 1))
                else if len \<noteq> 0 then
                  (case py_index lps (len - 1) of
                     Inl e \<Rightarrow> Some (Inl e)
                   | Inr len \<Rightarrow> lps_loop pattern lps len i)
                else
                  (case py_setitem lps i 0 of
                     Inl e \<Rightarrow> Some (Inl e)
                   | Inr lps \<Rightarrow> lps_loop pattern lps len (i + 1))))
      else Some (Inr lps))"

definition compute_lps :: "'a list \<Rightarrow> (py_error + int list) option" where
  "compute_lps pattern =
     (let lps = replicate (length pattern) 0; len = 0; i = 1
      in lps_loop pattern lps len i)"

partial_function (option) kmp_loop ::
  "'a list \<Rightarrow> 'a list \<Rightarrow> int list \<Rightarrow> int \<Rightarrow> int \<Rightarrow> (py_error + int) option" where
  [code]: "kmp_loop text pattern lps i j =
     (let M = int (length pattern); N = int (length text) in
      if i < N then
        (case py_index pattern j of
           Inl e \<Rightarrow> Some (Inl e)
         | Inr a \<Rightarrow>
            (case py_index text i of
               Inl e \<Rightarrow> Some (Inl e)
             | Inr b \<Rightarrow>
                if a = b then
                  (let i = i + 1; j = j + 1 in
                   if j = M then Some (Inr (i - j)) else kmp_loop text pattern lps i j)
                else if j \<noteq> 0 then
                  (case py_index lps (j - 1) of
                     Inl e \<Rightarrow> Some (Inl e)
                   | Inr j \<Rightarrow>
                       if j = M then Some (Inr (i - j)) else kmp_loop text pattern lps i j)
                else
                  (let i = i + 1 in
                   if j = M then Some (Inr (i - j)) else kmp_loop text pattern lps i j)))
      else Some (Inr (- 1)))"

definition kmp_search :: "'a list \<Rightarrow> 'a list \<Rightarrow> (py_error + int) option" where
  "kmp_search text pattern =
     (case compute_lps pattern of
        None \<Rightarrow> None
      | Some (Inl e) \<Rightarrow> Some (Inl e)
      | Some (Inr lps) \<Rightarrow> kmp_loop text pattern lps 0 0)"

section \<open>task\_03.py: Rabin-Karp with the polynomial hash\<close>

fun polynomial_hash_loop :: "int \<Rightarrow> int \<Rightarrow> int \<Rightarrow> int \<Rightarrow> pystr \<Rightarrow> int \<Rightarrow> py_error + int" where
  \<comment> \<open>\<open>for i, char in enumerate(s)\<close>, from index \<open>i\<close>, with \<open>n = len(s)\<close>.\<close>
  "polynomial_hash_loop base modulus n i [] hash_value = Inr hash_value"
| "polynomial_hash_loop base modulus n i (char # rest) hash_value =
     (if modulus = 0 then Inl ZeroDivisionError
      else
        let power_of_base = (base ^ nat (n - i - 1)) mod modulus;
            hash_value = (hash_value + py_ord char * power_of_base) mod modulus
        in polynomial_hash_loop base modulus n (i + 1) rest hash_value)"

definition polynomial_hash :: "pystr \<Rightarrow> int \<Rightarrow> int \<Rightarrow> py_error + int" where
  "polynomial_hash s base modulus =
     (let n = int (length s); hash_value = 0
      in polynomial_hash_loop base modulus n 0 s hash_value)"

text \<open>
  One pass of the body of the \<open>for\<close> loop of \<open>rabin_karp_search\<close> at index \<open>i\<close>, with the
  window hash \<open>current_slice_hash\<close>: it returns the index, raises, or goes on with the
  updated hash.
\<close>

datatype rk_step = Return int | Raise py_error | Continue int

definition rk_body :: "pystr \<Rightarrow> pystr \<Rightarrow> int \<Rightarrow> int \<Rightarrow> int \<Rightarrow> int \<Rightarrow> int \<Rightarrow> int \<Rightarrow> rk_step" where
  "rk_body text pattern base modulus substring_hash h_multiplier i current_slice_hash =
     (let substring_length = int (length pattern);
          main_string_length = int (length text)
      in if substring_hash = current_slice_hash
            \<and> py_slice text i (i + substring_length) = pattern
         then Return i
         else if i < main_string_length - substring_length then
           (case py_index text i of
              Inl e \<Rightarrow> Raise e
            | Inr c_old \<Rightarrow>
               (case py_index text (i + substring_length) of
                  Inl e \<Rightarrow> Raise e
                | Inr c_new \<Rightarrow>
                    let h = (current_slice_hash - py_ord c_old * h_multiplier) mod modulus;
                        h = (h * base + py_ord c_new) mod modulus;
                        h = (if h < 0 then h + modulus else h)
                    in Continue h))
         else Continue current_slice_hash)"

function rk_loop :: "pystr \<Rightarrow> pystr \<Rightarrow> int \<Rightarrow> int \<Rightarrow> int \<Rightarrow> int \<Rightarrow> int \<Rightarrow> int \<Rightarrow> py_error + int" where
  \<comment> \<open>\<open>for i in range(main_string_length - substring_length + 1)\<close>, from \<open>i\<close>.\<close>
  "rk_loop text pattern base modulus substring_hash h_multiplier i current_slice_hash =
     (if i < int (length text) - int (length pattern) + 1 then
        (case rk_body text pattern base modulus substring_hash h_multiplier i current_slice_hash of
           Return r \<Rightarrow> Inr r
         | Raise e \<Rightarrow> Inl e
         | Continue h \<Rightarrow> rk_loop text pattern base modulus substring_hash h_multiplier (i + 1) h)
      else Inr (- 1))"
  by pat_completeness auto
termination
  by (relation "measure (\<lambda>(text, pattern, base, modulus, sh, hm, i, h).
        nat (int (length text) - int (length pattern) + 1 - i))") auto

declare rk_loop.simps [simp del]



definition rabin_karp_search :: "pystr \<Rightarrow> pystr \<Rightarrow> py_error + int" where
  "rabin_karp_search text pattern =
     (let substring_length = int (length pattern);
          main_string_length = int (length text)
      in if substring_length = 0 \<or> main_string_length = 0
            \<or> substring_length > main_string_length
         then Inr (- 1)
         else
           let base = 256; modulus = 101 in
           case polynomial_hash pattern base modulus of
             Inl e \<Rightarrow> Inl e
           | Inr substring_hash \<Rightarrow>
              (case polynomial_hash (py_slice text 0 substring_length) base modulus of
                 Inl e \<Rightarrow> Inl e
               | Inr current_slice_hash \<Rightarrow>
                   let h_multiplier = (base ^ nat (substring_length - 1)) mod modulus
                   in rk_loop text pattern base modulus substring_hash h_multiplier 0
                        current_slice_hash))"


section \<open>What a search has to return\<close>

text \<open>
  The pattern occurs in the text at offset \<open>k\<close> when it fits there and the slice of the
  text of the pattern's length that starts at \<open>k\<close> is the pattern. A result \<open>r\<close> is the
  first match when it is the least such offset, and -1 when there is none.
\<close>

definition occurs_at :: "'a list \<Rightarrow> 'a list \<Rightarrow> nat \<Rightarrow> bool" where
  "occurs_at text pattern k =
     (k + length pattern \<le> length text \<and> take (length pattern) (drop k text) = pattern)"

definition first_match :: "'a list \<Rightarrow> 'a list \<Rightarrow> int \<Rightarrow> bool" where
  "first_match text pattern r =
     (if \<exists>k. occurs_at text pattern k
      then 0 \<le> r \<and> occurs_at text pattern (nat r) \<and> (\<forall>k < nat r. \<not> occurs_at text pattern k)
      else r = - 1)"

text \<open>
  What the search loop of \<open>boyer_moore_search\<close> needs of its table: every shift read
  from it (with the pattern's length as the default) is between 1 and the length of the
  pattern, and skips no offset at which the text unit under the pattern's last position
  could be matched by the pattern.
\<close>

definition shift_safe :: "'a list \<Rightarrow> ('a \<rightharpoonup> int) \<Rightarrow> bool" where
  "shift_safe pattern table \<longleftrightarrow>
     (\<forall>c. 1 \<le> dict_get table c (int (length pattern))
        \<and> dict_get table c (int (length pattern)) \<le> int (length pattern)
        \<and> (\<forall>d. 0 < d \<and> int d < dict_get table c (int (length pattern))
              \<longrightarrow> pattern ! (length pattern - 1 - d) \<noteq> c))"

text \<open>
  The polynomial that \<open>polynomial_hash\<close> evaluates before reduction: the sum of
  \<open>ord(s[k]) * base ^ (n - 1 - k)\<close> over the positions \<open>k\<close> of a string of length \<open>n\<close>.
\<close>

fun hash_sum :: "int \<Rightarrow> pystr \<Rightarrow> int" where
  "hash_sum base [] = 0"
| "hash_sum base (c # s) = py_ord c * base ^ length s + hash_sum base s"

text \<open>The slice of the text of length \<open>m\<close> that starts at offset \<open>i\<close>.\<close>

definition window :: "'a list \<Rightarrow> nat \<Rightarrow> nat \<Rightarrow> 'a list" where
  "window text m i = take m (drop i text)"

text \<open>
  A proper prefix of \<open>w\<close> that is also a suffix of \<open>w\<close>, by its length \<open>k\<close>; and the
  length of the longest one.
\<close>

definition is_border :: "'a list \<Rightarrow> nat \<Rightarrow> bool" where
  "is_border w k \<longleftrightarrow> k < length w \<and> take k w = drop (length w - k) w"

definition longest_border :: "'a list \<Rightarrow> nat \<Rightarrow> bool" where
  "longest_border w k \<longleftrightarrow> is_border w k \<and> (\<forall>j. is_border w j \<longrightarrow> j \<le> k)"

section \<open>Properties\<close>

subsection \<open>Indexing, the hash range and two concrete runs\<close>

lemma py_index_nat:
  "k < length xs \<Longrightarrow> py_index xs (int k) = Inr (xs ! k)"
  by (simp add: py_index_def)

lemma py_index_last:
  "xs \<noteq> [] \<Longrightarrow> py_index xs (- 1) = Inr (last xs)"
  by (cases xs rule: rev_cases) (auto simp: py_index_def nat_add_distrib)

lemma polynomial_hash_loop_range:
  "0 < modulus \<Longrightarrow> 0 \<le> h \<Longrightarrow> h < modulus \<Longrightarrow>
   \<exists>r. polynomial_hash_loop base modulus n i s h = Inr r \<and> 0 \<le> r \<and> r < modulus"
  by (induction s arbitrary: i h) (simp_all add: Let_def)

text \<open>
  Claim C10: for every string and every positive modulus, \<open>polynomial_hash\<close> returns
  an integer \<open>r\<close> with \<open>0 \<le> r < modulus\<close>, whatever the base; and the hash of the
  string \<open>"a"\<close> with base 256 and modulus 101 is \<open>ord('a') mod 101 = 97\<close>.
\<close>

theorem polynomial_hash_range:
  "(0 < modulus \<longrightarrow>
      (\<exists>r. polynomial_hash s base modulus = Inr r \<and> 0 \<le> r \<and> r < modulus))
   \<and> polynomial_hash (str ''a'') 256 101 = Inr (py_ord (of_char CHR ''a'') mod 101)
   \<and> py_ord (of_char CHR ''a'') mod 101 = 97"
proof (intro conjI impI)
  assume "0 < modulus"
  then show "\<exists>r. polynomial_hash s base modulus = Inr r \<and> 0 \<le> r \<and> r < modulus"
    unfolding polynomial_hash_def Let_def by (intro polynomial_hash_loop_range) simp_all
next
  show "polynomial_hash (str ''a'') 256 101 = Inr (py_ord (of_char CHR ''a'') mod 101)"
    by (simp add: polynomial_hash_def str_def py_ord_def)
next
  show "py_ord (of_char CHR ''a'') mod 101 = 97"
    by (simp add: py_ord_def)
qed

theorem polynomial_hash_range_witness:
  "(0::int) < 101 \<and>
   (\<exists>r. polynomial_hash (str ''GEEK'') 256 101 = Inr r \<and> 0 \<le> r \<and> r < 101)"
  using polynomial_hash_range [of 101 "str ''GEEK''" 256] by simp

text \<open>
  Claim C5, as stated: \<open>kmp_search("ABABDABACDABABCABAB", "ABABCABAB")\<close> returns 15.
  It does not: the pattern already occurs at index 10.
\<close>

theorem kmp_search_example_not_15:
  "kmp_search ''ABABDABACDABABCABAB'' ''ABABCABAB'' \<noteq> Some (Inr 15)"
  by code_simp

text \<open>
  Claim C5, amended: \<open>kmp_search("ABABDABACDABABCABAB", "ABABCABAB")\<close> returns 10,
  the first index at which the pattern occurs.
\<close>

theorem kmp_search_example:
  "kmp_search ''ABABDABACDABABCABAB'' ''ABABCABAB'' = Some (Inr 10)"
  by code_simp

text \<open>
  Claim C8, as stated: \<open>build_shift_table\<close> applied to the empty pattern returns a
  mapping. It does not: \<open>pattern[-1]\<close> raises IndexError.
\<close>

theorem build_shift_table_empty_raises:
  "\<not> (\<exists>table. build_shift_table ([] :: nat list) = Inr table)"
  by (simp add: build_shift_table_def py_index_def)

text \<open>
  Claim C8, amended: \<open>build_shift_table\<close> returns a mapping for every non-empty
  pattern; on the empty pattern it raises IndexError, and \<open>boyer_moore_search\<close>
  returns -1 on the empty pattern without calling it.
\<close>

theorem build_shift_table_defined:
  "((pattern :: 'a list) \<noteq> [] \<longrightarrow> (\<exists>table. build_shift_table pattern = Inr table))
   \<and> build_shift_table ([] :: 'a list) = Inl IndexError
   \<and> boyer_moore_search text ([] :: 'a list) = Some (Inr (- 1))"
  by (simp add: build_shift_table_def py_index_last boyer_moore_search_def Let_def)
     (simp add: py_index_def)

theorem build_shift_table_defined_witness:
  "str ''x'' \<noteq> [] \<and> (\<exists>table. build_shift_table (str ''x'') = Inr table)"
  using build_shift_table_defined [of "str ''x''" "[]"]
  by (simp add: str_def)

subsection \<open>The bad-character table and the Boyer-Moore search\<close>

lemma shift_table_loop_lookup:
  "shift_table_loop xs len index table c =
     (if c \<in> set xs
      then Some (len - (index + int (Max {i. i < length xs \<and> xs ! i = c})) - 1)
      else table c)"
proof (induction xs arbitrary: index table)
  case Nil
  then show ?case by simp
next
  case (Cons x xs)
  have step: "shift_table_loop (x # xs) len index table c =
      shift_table_loop xs len (index + 1) (table(x \<mapsto> len - index - 1)) c"
    by simp
  note IH = Cons.IH [of "index + 1" "table(x \<mapsto> len - index - 1)"]
  show ?case
  proof (cases "c \<in> set xs")
    case True
    let ?A = "{i. i < length xs \<and> xs ! i = c}"
    let ?B = "{i. i < length (x # xs) \<and> (x # xs) ! i = c}"
    from True obtain k where k: "k < length xs" "xs ! k = c"
      by (auto simp: in_set_conv_nth)
    have finA: "finite ?A" and neA: "?A \<noteq> {}" using k by auto
    have finB: "finite ?B" by simp
    have "Max ?B = Suc (Max ?A)"
    proof (rule Max_eqI [OF finB])
      fix y assume "y \<in> ?B"
      then show "y \<le> Suc (Max ?A)"
        using Max_ge [OF finA, of "y - 1"] by (cases y) auto
    next
      have "Max ?A \<in> ?A" using Max_in [OF finA neA] .
      then show "Suc (Max ?A) \<in> ?B" by simp
    qed
    with True show ?thesis
      unfolding step IH by simp
  next
    case False
    show ?thesis
    proof (cases "c = x")
      case True
      have "{i. i < length (x # xs) \<and> (x # xs) ! i = c} = {0}"
        using False True by (auto simp: nth_Cons' in_set_conv_nth split: if_splits)
           (metis One_nat_def Suc_pred less_Suc_eq_0_disj not_less_eq)
      with False True show ?thesis
        unfolding step IH by simp
    next
      case neq: False
      with False show ?thesis
        unfolding step IH by simp
    qed
  qed
qed

lemma dom_shift_table_loop:
  "dom (shift_table_loop xs len index table) = dom table \<union> set xs"
  by (induction xs arbitrary: index table) auto

lemma build_shift_table_lookup:
  assumes "pattern \<noteq> []"
  shows "build_shift_table pattern = Inr (\<lambda>c.
      if c \<in> set (butlast pattern)
      then Some (int (length pattern) - 1
                   - int (Max {i. i < length pattern - 1 \<and> pattern ! i = c}))
      else if c = last pattern then Some (int (length pattern)) else None)"
proof -
  have eq: "{i. i < length pattern - Suc 0 \<and> butlast pattern ! i = c}
      = {i. i < length pattern - Suc 0 \<and> pattern ! i = c}" for c
    by (auto simp: nth_butlast)
  show ?thesis
    using assms
    by (auto simp: build_shift_table_def Let_def py_index_last dict_setdefault_def
        shift_table_loop_lookup eq fun_eq_iff)
qed

lemma last_occurrence_less:
  assumes "c \<in> set (butlast pattern)"
  shows "Max {i. i < length pattern - 1 \<and> pattern ! i = c} < length pattern - 1"
    and "pattern ! Max {i. i < length pattern - 1 \<and> pattern ! i = c} = c"
    and "k < length pattern - 1 \<Longrightarrow> pattern ! k = c
         \<Longrightarrow> k \<le> Max {i. i < length pattern - 1 \<and> pattern ! i = c}"
proof -
  let ?A = "{i. i < length pattern - 1 \<and> pattern ! i = c}"
  from assms obtain k where "k < length (butlast pattern)" "butlast pattern ! k = c"
    by (auto simp: in_set_conv_nth)
  then have "k \<in> ?A" by (simp add: nth_butlast)
  then have ne: "?A \<noteq> {}" by blast
  have fin: "finite ?A" by simp
  from Max_in [OF fin ne] show "Max ?A < length pattern - 1" and "pattern ! Max ?A = c"
    by simp_all
  show "k \<le> Max ?A" if "k < length pattern - 1" "pattern ! k = c" for k
    using Max_ge [OF fin, of k] that by simp
qed

text \<open>
  Claim C7: for a non-empty pattern of length \<open>L\<close>, \<open>build_shift_table\<close> returns a
  table that maps every unit among the first \<open>L - 1\<close> positions to \<open>L - 1\<close> minus the
  largest index below \<open>L - 1\<close> at which it occurs, maps the final unit to \<open>L\<close> when that
  unit is not among the first \<open>L - 1\<close> positions, has the units of the pattern as its
  keys and no others, and stores only positive shifts.
\<close>

theorem build_shift_table_spec:
  assumes "pattern \<noteq> []"
  shows "\<exists>table. build_shift_table pattern = Inr table
     \<and> (\<forall>c \<in> set (butlast pattern). table c =
           Some (int (length pattern) - 1
                   - int (Max {i. i < length pattern - 1 \<and> pattern ! i = c})))
     \<and> (last pattern \<notin> set (butlast pattern)
           \<longrightarrow> table (last pattern) = Some (int (length pattern)))
     \<and> dom table = set pattern
     \<and> (\<forall>c v. table c = Some v \<longrightarrow> 0 < v)"
proof -
  let ?t = "\<lambda>c. if c \<in> set (butlast pattern)
      then Some (int (length pattern) - 1
                   - int (Max {i. i < length pattern - 1 \<and> pattern ! i = c}))
      else if c = last pattern then Some (int (length pattern)) else None"
  have t: "build_shift_table pattern = Inr ?t"
    by (rule build_shift_table_lookup [OF assms])
  have "set pattern = insert (last pattern) (set (butlast pattern))"
    using assms by (metis append_butlast_last_id list.simps(15) rotate1.simps(2) set_rotate1)
  then have d: "dom ?t = set pattern"
    by (auto simp: dom_def)
  have pos: "0 < v" if "?t c = Some v" for c v
  proof (cases "c \<in> set (butlast pattern)")
    case True
    with last_occurrence_less(1) [OF True] that show ?thesis by auto
  next
    case False
    with that assms show ?thesis by (auto split: if_splits)
  qed
  show ?thesis
    unfolding t using d pos by (intro exI [of _ ?t]) simp
qed

theorem build_shift_table_spec_witness:
  "''EXAMPLE'' \<noteq> [] \<and>
   (\<exists>table. build_shift_table ''EXAMPLE'' = Inr table
      \<and> table CHR ''E'' = Some 6 \<and> table CHR ''L'' = Some 1 \<and> table CHR ''Z'' = None
      \<and> dom table = set ''EXAMPLE'')"
proof -
  have ne: "''EXAMPLE'' \<noteq> []" by simp
  from build_shift_table_spec [OF ne] obtain table where
    t: "build_shift_table ''EXAMPLE'' = Inr table"
    and d: "dom table = set ''EXAMPLE''"
    by blast
  have "\<exists>t. build_shift_table ''EXAMPLE'' = Inr t
      \<and> t CHR ''E'' = Some 6 \<and> t CHR ''L'' = Some 1 \<and> t CHR ''Z'' = None"
    by (simp add: build_shift_table_def py_index_def dict_setdefault_def)
  with t have "table CHR ''E'' = Some 6 \<and> table CHR ''L'' = Some 1 \<and> table CHR ''Z'' = None"
    by auto
  with ne t d show ?thesis by blast
qed

lemma occurs_at_nth:
  "occurs_at text pattern k \<longleftrightarrow>
     k + length pattern \<le> length text \<and> (\<forall>j < length pattern. text ! (k + j) = pattern ! j)"
  by (auto simp: occurs_at_def list_eq_iff_nth_eq)

lemma bm_compare_result:
  assumes "i + length pattern \<le> length text" and "jn \<le> length pattern"
  shows "\<exists>r. bm_compare text pattern (int i) (int jn - 1) = Inr r
      \<and> (r < 0 \<longleftrightarrow> (\<forall>l < jn. text ! (i + l) = pattern ! l))"
  using assms(2)
proof (induction jn)
  case 0
  then show ?case by (simp add: bm_compare.simps)
next
  case (Suc k)
  have t: "py_index text (int i + int k) = Inr (text ! (i + k))"
    using assms(1) Suc.prems py_index_nat [of "i + k" "text"] by simp
  have p: "py_index pattern (int k) = Inr (pattern ! k)"
    using Suc.prems by (simp add: py_index_nat)
  have unfold: "bm_compare text pattern (int i) (int (Suc k) - 1) =
      (if text ! (i + k) = pattern ! k then bm_compare text pattern (int i) (int k - 1)
       else Inr (int k))"
    by (subst bm_compare.simps) (simp add: t p)
  show ?case
  proof (cases "text ! (i + k) = pattern ! k")
    case True
    from Suc.IH Suc.prems obtain r where
      r: "bm_compare text pattern (int i) (int k - 1) = Inr r"
         "r < 0 \<longleftrightarrow> (\<forall>l < k. text ! (i + l) = pattern ! l)"
      by auto
    with True show ?thesis
      unfolding unfold by (auto simp: less_Suc_eq)
  next
    case False
    then show ?thesis
      unfolding unfold by auto
  qed
qed

lemma bm_compare_occurs:
  assumes "i + length pattern \<le> length text"
  shows "\<exists>r. bm_compare text pattern (int i) (int (length pattern) - 1) = Inr r
      \<and> (r < 0 \<longleftrightarrow> occurs_at text pattern i)"
  using bm_compare_result [OF assms, of "length pattern"] assms
  by (simp add: occurs_at_nth)

lemma build_shift_table_safe:
  assumes "pattern \<noteq> []"
  shows "\<exists>table. build_shift_table pattern = Inr table \<and> shift_safe pattern table"
proof -
  let ?m = "length pattern"
  let ?last = "\<lambda>c. Max {i. i < ?m - 1 \<and> pattern ! i = c}"
  let ?t = "\<lambda>c. if c \<in> set (butlast pattern) then Some (int ?m - 1 - int (?last c))
      else if c = last pattern then Some (int ?m) else None"
  have t: "build_shift_table pattern = Inr ?t"
    by (rule build_shift_table_lookup [OF assms])
  have m: "0 < ?m" using assms by simp
  have "1 \<le> dict_get ?t c (int ?m) \<and> dict_get ?t c (int ?m) \<le> int ?m
      \<and> (\<forall>d. 0 < d \<and> int d < dict_get ?t c (int ?m) \<longrightarrow> pattern ! (?m - 1 - d) \<noteq> c)" for c
  proof (cases "c \<in> set (butlast pattern)")
    case True
    then have g: "dict_get ?t c (int ?m) = int ?m - 1 - int (?last c)"
      by (simp add: dict_get_def)
    note lo = last_occurrence_less [OF True]
    have "pattern ! (?m - 1 - d) \<noteq> c" if "0 < d" "int d < int ?m - 1 - int (?last c)" for d
    proof
      assume eq: "pattern ! (?m - 1 - d) = c"
      have "?m - 1 - d < ?m - 1" using that m by linarith
      from lo(3) [OF this eq] that show False by linarith
    qed
    with lo(1) show ?thesis unfolding g by auto
  next
    case False
    then have g: "dict_get ?t c (int ?m) = int ?m"
      by (simp add: dict_get_def)
    have "pattern ! (?m - 1 - d) \<noteq> c" if "0 < d" "d < ?m" for d
    proof
      assume eq: "pattern ! (?m - 1 - d) = c"
      have "?m - 1 - d < length (butlast pattern)" using that by simp
      then have "butlast pattern ! (?m - 1 - d) \<in> set (butlast pattern)"
        by (rule nth_mem)
      moreover have "butlast pattern ! (?m - 1 - d) = c"
        using that eq by (simp add: nth_butlast)
      ultimately show False using False by simp
    qed
    with m show ?thesis unfolding g by (auto simp: Suc_le_eq)
  qed
  then have "shift_safe pattern ?t" unfolding shift_safe_def by blast
  with t show ?thesis by blast
qed

lemma no_occurrence_beyond:
  "length text < k + length pattern \<Longrightarrow> \<not> occurs_at text pattern k"
  by (simp add: occurs_at_def)

lemma first_matchI_found:
  "occurs_at text pattern i \<Longrightarrow> (\<forall>k < i. \<not> occurs_at text pattern k)
    \<Longrightarrow> first_match text pattern (int i)"
  by (auto simp: first_match_def)

lemma first_matchI_none:
  "(\<forall>k. \<not> occurs_at text pattern k) \<Longrightarrow> first_match text pattern (- 1)"
  by (auto simp: first_match_def)

lemma bm_loop_correct:
  assumes "pattern \<noteq> []" and "shift_safe pattern table"
    and "\<forall>k < i. \<not> occurs_at text pattern k"
  shows "\<exists>r. bm_loop text pattern table (int i) = Some (Inr r) \<and> first_match text pattern r"
  using assms(3)
proof (induction "length text - i" arbitrary: i rule: less_induct)
  case less
  let ?m = "length pattern" and ?n = "length text"
  have m: "0 < ?m" using assms(1) by simp
  show ?case
  proof (cases "i + ?m \<le> ?n")
    case False
    then have "\<not> occurs_at text pattern k" for k
      using less.prems no_occurrence_beyond [of "text" k pattern]
      by (cases "k < i") auto
    then have "first_match text pattern (- 1)" by (simp add: first_matchI_none)
    moreover have "bm_loop text pattern table (int i) = Some (Inr (- 1))"
      using False by (subst bm_loop.simps) (simp add: Let_def)
    ultimately show ?thesis by simp
  next
    case True
    from bm_compare_occurs [OF True] obtain j where
      j: "bm_compare text pattern (int i) (int ?m - 1) = Inr j"
         "j < 0 \<longleftrightarrow> occurs_at text pattern i"
      by blast
    show ?thesis
    proof (cases "j < 0")
      case neg: True
      have "bm_loop text pattern table (int i) = Some (Inr (int i))"
        using True neg j(1) by (subst bm_loop.simps) (simp add: Let_def)
      moreover have "first_match text pattern (int i)"
        using neg j(2) less.prems by (simp add: first_matchI_found)
      ultimately show ?thesis by blast
    next
      case nonneg: False
      let ?c = "text ! (i + ?m - 1)"
      define s where "s = dict_get table ?c (int ?m)"
      have lt: "i + ?m - 1 < length text" using True m by linarith
      have e: "int i + int ?m - 1 = int (i + ?m - 1)" using m by linarith
      have c: "py_index text (int i + int ?m - 1) = Inr ?c"
        unfolding e by (rule py_index_nat [OF lt])
      have s: "1 \<le> s" "s \<le> int ?m"
        and safe: "\<And>d. 0 < d \<Longrightarrow> int d < s \<Longrightarrow> pattern ! (?m - 1 - d) \<noteq> ?c"
        using assms(2) unfolding shift_safe_def s_def by blast+
      have unfold: "bm_loop text pattern table (int i) =
          bm_loop text pattern table (int (i + nat s))"
        using True nonneg j(1) s(1)
        by (subst bm_loop.simps) (simp add: Let_def c s_def)
      have inv: "\<forall>k < i + nat s. \<not> occurs_at text pattern k"
      proof (intro allI impI)
        fix k assume k: "k < i + nat s"
        consider "k < i" | "k = i" | "i < k" by linarith
        then show "\<not> occurs_at text pattern k"
        proof cases
          case 1
          then show ?thesis using less.prems by blast
        next
          case 2
          then show ?thesis using nonneg j(2) by simp
        next
          case 3
          define d where "d = k - i"
          have d: "0 < d" "int d < s" "d < ?m" using 3 k s by (auto simp: d_def)
          show ?thesis
          proof
            assume "occurs_at text pattern k"
            then have "text ! (k + (?m - 1 - d)) = pattern ! (?m - 1 - d)"
              using m unfolding occurs_at_nth by auto
            moreover have "k + (?m - 1 - d) = i + ?m - 1"
              using d 3 by (simp add: d_def)
            ultimately show False using safe [OF d(1) d(2)] by simp
          qed
        qed
      qed
      have "length text - (i + nat s) < length text - i"
        using True m s(1) by linarith
      from less.hyps [OF this inv] show ?thesis
        unfolding unfold .
    qed
  qed
qed

lemma boyer_moore_search_correct:
  assumes "pattern \<noteq> []"
  shows "\<exists>r. boyer_moore_search text pattern = Some (Inr r) \<and> first_match text pattern r"
proof (cases "text = []")
  case True
  have "\<not> occurs_at text pattern k" for k
    using True assms by (simp add: occurs_at_def)
  then have "first_match text pattern (- 1)" by (simp add: first_matchI_none)
  with True show ?thesis by (simp add: boyer_moore_search_def)
next
  case False
  from build_shift_table_safe [OF assms] obtain table where
    t: "build_shift_table pattern = Inr table" "shift_safe pattern table"
    by blast
  from bm_loop_correct [OF assms t(2), of 0 "text"] obtain r where
    "bm_loop text pattern table 0 = Some (Inr r)" "first_match text pattern r"
    by auto
  with False assms t(1) show ?thesis
    by (simp add: boyer_moore_search_def)
qed

subsection \<open>The rolling hash and the Rabin-Karp search\<close>

lemma hash_sum_snoc:
  "hash_sum base (s @ [c]) = hash_sum base s * base + py_ord c"
  by (induction s) (simp_all add: algebra_simps)

lemma polynomial_hash_loop_sum:
  assumes "0 < modulus" and "n = i + int (length s)" and "0 \<le> h" and "h < modulus"
  shows "polynomial_hash_loop base modulus n i s h = Inr ((h + hash_sum base s) mod modulus)"
  using assms(2-)
proof (induction s arbitrary: i h)
  case Nil
  then show ?case by simp
next
  case (Cons c s)
  let ?h = "(h + py_ord c * (base ^ length s mod modulus)) mod modulus"
  have e: "nat (n - i - 1) = length s" using Cons.prems(1) by simp
  have step: "polynomial_hash_loop base modulus n i (c # s) h =
      polynomial_hash_loop base modulus n (i + 1) s ?h"
    using assms(1) by (simp add: Let_def e)
  have "polynomial_hash_loop base modulus n (i + 1) s ?h =
      Inr ((?h + hash_sum base s) mod modulus)"
    using Cons.prems(1) assms(1) by (intro Cons.IH) simp_all
  also have "(?h + hash_sum base s) mod modulus =
      (h + py_ord c * (base ^ length s mod modulus) + hash_sum base s) mod modulus"
    by (simp only: mod_add_left_eq)
  also have "\<dots> = (h + py_ord c * base ^ length s + hash_sum base s) mod modulus"
  proof -
    have "(py_ord c * (base ^ length s mod modulus)) mod modulus =
        (py_ord c * base ^ length s) mod modulus"
      by (simp only: mod_mult_right_eq)
    then have "(h + py_ord c * (base ^ length s mod modulus)) mod modulus =
        (h + py_ord c * base ^ length s) mod modulus"
      by (rule mod_add_cong [OF refl])
    then show ?thesis
      by (rule mod_add_cong [OF _ refl])
  qed
  also have "h + py_ord c * base ^ length s + hash_sum base s = h + hash_sum base (c # s)"
    by simp
  finally show ?case unfolding step .
qed

lemma polynomial_hash_sum:
  "0 < modulus \<Longrightarrow> polynomial_hash s base modulus = Inr (hash_sum base s mod modulus)"
  using polynomial_hash_loop_sum [of modulus "int (length s)" 0 s 0 base]
  by (simp add: polynomial_hash_def)

lemma py_slice_window:
  "py_slice text (int i) (int i + int m) = window text m i"
  by (simp add: py_slice_def window_def nat_add_distrib)

lemma window_step:
  assumes "i + m < length text" and "0 < m"
  shows "window text m i = text ! i # take (m - 1) (drop (Suc i) text)"
    and "window text m (Suc i) = take (m - 1) (drop (Suc i) text) @ [text ! (i + m)]"
proof -
  obtain k where m: "m = Suc k" using assms(2) by (cases m) auto
  have "drop i text = text ! i # drop (Suc i) text"
    using assms(1) by (simp add: Cons_nth_drop_Suc)
  then show "window text m i = text ! i # take (m - 1) (drop (Suc i) text)"
    by (simp add: window_def m)
  have "take (Suc k) (drop (Suc i) text) =
      take k (drop (Suc i) text) @ [drop (Suc i) text ! k]"
    using assms(1) by (intro take_Suc_conv_app_nth) (simp add: m)
  moreover have "drop (Suc i) text ! k = text ! (i + m)"
    using assms(1) by (simp add: m)
  ultimately show "window text m (Suc i) = take (m - 1) (drop (Suc i) text) @ [text ! (i + m)]"
    by (simp add: window_def m)
qed

lemma rolling_update:
  assumes "i + m < length text" and "0 < m" and "0 < q"
    and "h = hash_sum b (window text m i) mod q"
  shows "((h - py_ord (text ! i) * (b ^ (m - 1) mod q)) mod q * b
            + py_ord (text ! (i + m))) mod q
         = hash_sum b (window text m (Suc i)) mod q"
proof -
  let ?u = "take (m - 1) (drop (Suc i) text)"
  have len: "length ?u = m - 1" using assms(1) by simp
  have hs: "hash_sum b (text ! i # ?u) = py_ord (text ! i) * b ^ (m - 1) + hash_sum b ?u"
    unfolding hash_sum.simps len ..
  have "(h - py_ord (text ! i) * (b ^ (m - 1) mod q)) mod q =
      (py_ord (text ! i) * b ^ (m - 1) + hash_sum b ?u
         - py_ord (text ! i) * (b ^ (m - 1) mod q)) mod q"
    unfolding assms(4) window_step(1) [OF assms(1,2)] hs
    by (simp only: mod_diff_left_eq)
  also have "\<dots> = (py_ord (text ! i) * b ^ (m - 1) + hash_sum b ?u
         - py_ord (text ! i) * b ^ (m - 1)) mod q"
  proof -
    have "(py_ord (text ! i) * (b ^ (m - 1) mod q)) mod q =
        (py_ord (text ! i) * b ^ (m - 1)) mod q"
      by (simp only: mod_mult_right_eq)
    then show ?thesis
      by (rule mod_diff_cong [OF refl])
  qed
  also have "py_ord (text ! i) * b ^ (m - 1) + hash_sum b ?u
         - py_ord (text ! i) * b ^ (m - 1) = hash_sum b ?u"
    by simp
  finally have "(h - py_ord (text ! i) * (b ^ (m - 1) mod q)) mod q = hash_sum b ?u mod q" .
  then have "((h - py_ord (text ! i) * (b ^ (m - 1) mod q)) mod q * b
      + py_ord (text ! (i + m))) mod q = (hash_sum b ?u mod q * b + py_ord (text ! (i + m))) mod q"
    by simp
  also have "\<dots> = (hash_sum b ?u * b + py_ord (text ! (i + m))) mod q"
  proof -
    have "(hash_sum b ?u mod q * b) mod q = (hash_sum b ?u * b) mod q"
      by (simp only: mod_mult_left_eq)
    then show ?thesis
      by (rule mod_add_cong [OF _ refl])
  qed
  also have "\<dots> = hash_sum b (?u @ [text ! (i + m)]) mod q"
    by (simp only: hash_sum_snoc)
  finally show ?thesis
    unfolding window_step(2) [OF assms(1,2)] .
qed

lemma occurs_at_window:
  "occurs_at text pattern i \<longleftrightarrow>
     i + length pattern \<le> length text \<and> window text (length pattern) i = pattern"
  by (simp add: occurs_at_def window_def)

lemma rk_body_result:
  assumes "i + length pattern \<le> length text" and "pattern \<noteq> []"
    and "h = hash_sum 256 (window text (length pattern) i) mod 101"
    and sh: "sh = hash_sum 256 pattern mod 101"
    and hm: "hm = 256 ^ (length pattern - 1) mod 101"
  shows "rk_body text pattern 256 101 sh hm (int i) h =
         (if occurs_at text pattern i then Return (int i)
          else if i + length pattern < length text
          then Continue (hash_sum 256 (window text (length pattern) (Suc i)) mod 101)
          else Continue h)"
proof -
  let ?m = "length pattern"
  have m: "0 < ?m" using assms(2) by simp
  show ?thesis
  proof (cases "occurs_at text pattern i")
    case True
    then have "window text ?m i = pattern" by (simp add: occurs_at_window)
    with True show ?thesis
      by (simp add: rk_body_def py_slice_window assms(3) sh)
  next
    case False
    then have neq: "window text ?m i \<noteq> pattern"
      using assms(1) by (simp add: occurs_at_window)
    show ?thesis
    proof (cases "i + ?m < length text")
      case True
      have a: "py_index text (int i) = Inr (text ! i)"
        using True by (simp add: py_index_nat)
      have b: "py_index text (int i + int ?m) = Inr (text ! (i + ?m))"
        using True py_index_nat [of "i + ?m" "text"] by simp
      define r where "r = hash_sum 256 (window text ?m (Suc i)) mod 101"
      have roll: "((h - py_ord (text ! i) * hm) mod 101 * 256
            + py_ord (text ! (i + ?m))) mod 101 = r"
        unfolding hm r_def by (rule rolling_update [OF True m _ assms(3)]) simp
      have nonneg: "\<not> r < 0" by (simp add: r_def)
      have "rk_body text pattern 256 101 sh hm (int i) h = Continue r"
        using True neq nonneg
        by (simp add: rk_body_def py_slice_window a b Let_def roll)
      with False True show ?thesis by (simp add: r_def)
    next
      case ge: False
      with False neq show ?thesis
        by (simp add: rk_body_def py_slice_window)
    qed
  qed
qed

lemma rk_loop_correct:
  assumes "pattern \<noteq> []" and "i + length pattern \<le> length text + 1"
    and "i + length pattern \<le> length text
           \<Longrightarrow> h = hash_sum 256 (window text (length pattern) i) mod 101"
    and "\<forall>k < i. \<not> occurs_at text pattern k"
    and sh: "sh = hash_sum 256 pattern mod 101"
    and hm: "hm = 256 ^ (length pattern - 1) mod 101"
  shows "\<exists>r. rk_loop text pattern 256 101 sh hm (int i) h = Inr r
          \<and> first_match text pattern r"
  using assms(2-4)
proof (induction "length text + 1 - (i + length pattern)" arbitrary: i h)
  case 0
  then have beyond: "length text < i + length pattern" by simp
  then have "\<not> occurs_at text pattern k" for k
    using "0.prems"(3) no_occurrence_beyond [of "text" k pattern]
    by (cases "k < i") auto
  then have "first_match text pattern (- 1)" by (simp add: first_matchI_none)
  moreover have "rk_loop text pattern 256 101 sh hm (int i) h = Inr (- 1)"
    using beyond by (subst rk_loop.simps) simp
  ultimately show ?case by simp
next
  case (Suc d)
  then have fits: "i + length pattern \<le> length text" by simp
  note h = Suc.prems(2) [OF fits]
  note body = rk_body_result [OF fits assms(1) h sh hm]
  have enter: "int i < int (length text) - int (length pattern) + 1"
    using fits by simp
  show ?case
  proof (cases "occurs_at text pattern i")
    case True
    then have "rk_loop text pattern 256 101 sh hm (int i) h = Inr (int i)"
      using enter body by (subst rk_loop.simps) simp
    moreover have "first_match text pattern (int i)"
      using True Suc.prems(3) by (simp add: first_matchI_found)
    ultimately show ?thesis by blast
  next
    case False
    define h' where "h' = (if i + length pattern < length text
        then hash_sum 256 (window text (length pattern) (Suc i)) mod 101 else h)"
    have unfold: "rk_loop text pattern 256 101 sh hm (int i) h =
        rk_loop text pattern 256 101 sh hm (int (Suc i)) h'"
      using enter body False
      by (subst rk_loop.simps) (simp add: h'_def add.commute)
    have "\<forall>k < Suc i. \<not> occurs_at text pattern k"
      using False Suc.prems(3) by (simp add: less_Suc_eq)
    moreover have "d = length text + 1 - (Suc i + length pattern)"
      using Suc.hyps(2) by simp
    moreover have "Suc i + length pattern \<le> length text + 1" using fits by simp
    moreover have "Suc i + length pattern \<le> length text \<Longrightarrow>
        h' = hash_sum 256 (window text (length pattern) (Suc i)) mod 101"
      by (simp add: h'_def)
    ultimately show ?thesis
      unfolding unfold by (intro Suc.hyps(1)) simp_all
  qed
qed

lemma rabin_karp_search_unfold:
  assumes "pattern \<noteq> []" and "length pattern \<le> length text"
  shows "rabin_karp_search text pattern =
      rk_loop text pattern 256 101 (hash_sum 256 pattern mod 101)
        (256 ^ (length pattern - 1) mod 101) 0
        (hash_sum 256 (window text (length pattern) 0) mod 101)"
proof -
  have e: "nat (int (length pattern) - 1) = length pattern - 1" by linarith
  have w0: "py_slice text 0 (int (length pattern)) = window text (length pattern) 0"
    using py_slice_window [of "text" 0 "length pattern"] by simp
  have guard: "\<not> (int (length pattern) = 0 \<or> int (length text) = 0
      \<or> int (length pattern) > int (length text))"
    using assms by auto
  have p: "polynomial_hash pattern 256 101 = Inr (hash_sum 256 pattern mod 101)"
    by (rule polynomial_hash_sum) simp
  have t: "polynomial_hash (window text (length pattern) 0) 256 101 =
      Inr (hash_sum 256 (window text (length pattern) 0) mod 101)"
    by (rule polynomial_hash_sum) simp
  show ?thesis
    unfolding rabin_karp_search_def Let_def w0 p t e
    using guard by (simp only: if_False sum.case)
qed

lemma rabin_karp_search_correct:
  assumes "pattern \<noteq> []"
  shows "\<exists>r. rabin_karp_search text pattern = Inr r \<and> first_match text pattern r"
proof (cases "length text < length pattern")
  case True
  then have "\<not> occurs_at text pattern k" for k
    by (auto simp: occurs_at_def)
  then have "first_match text pattern (- 1)" by (simp add: first_matchI_none)
  moreover have "rabin_karp_search text pattern = Inr (- 1)"
    unfolding rabin_karp_search_def Let_def using True by simp
  ultimately show ?thesis by simp
next
  case False
  then have le: "length pattern \<le> length text" by simp
  have "\<exists>r. rk_loop text pattern 256 101 (hash_sum 256 pattern mod 101)
        (256 ^ (length pattern - 1) mod 101) (int 0)
        (hash_sum 256 (window text (length pattern) 0) mod 101) = Inr r
      \<and> first_match text pattern r"
    using le by (intro rk_loop_correct [OF assms _ _ _ refl refl]) simp_all
  then show ?thesis
    unfolding rabin_karp_search_unfold [OF assms le] by simp
qed







subsection \<open>The binary search\<close>

lemma fbs_mid:
  assumes "l < hn"
  shows "(int l + (int hn - 1)) div 2 = int ((l + hn - 1) div 2)"
    and "l \<le> (l + hn - 1) div 2" and "(l + hn - 1) div 2 < hn"
proof -
  have "int l + (int hn - 1) = int (l + hn - 1)" using assms by linarith
  then show "(int l + (int hn - 1)) div 2 = int ((l + hn - 1) div 2)"
    by (simp only: zdiv_int) simp
  show "l \<le> (l + hn - 1) div 2" "(l + hn - 1) div 2 < hn"
    using assms by linarith+
qed

lemma fbs_loop_inv:
  fixes arr :: "'a::linorder list"
  assumes "sorted arr" and "l \<le> hn" and "hn \<le> length arr"
    and "\<forall>k < l. arr ! k < x"
    and "\<forall>k. hn \<le> k \<and> k < length arr \<longrightarrow> x \<le> arr ! k"
    and "ub = (if hn < length arr then Some (arr ! hn) else None)"
  shows "\<exists>p. p \<le> length arr \<and> (\<forall>k < p. arr ! k < x)
      \<and> (\<forall>k. p \<le> k \<and> k < length arr \<longrightarrow> x \<le> arr ! k)
      \<and> fbs_loop arr x (int l, int hn - 1, it, ub) =
          Inr (int p, int p - 1,
               it + int (length (fbs_comparisons arr x (int l, int hn - 1, it, ub))),
               if p < length arr then Some (arr ! p) else None)"
  using assms(2-)
proof (induction "hn - l" arbitrary: l hn it ub rule: less_induct)
  case less
  show ?case
  proof (cases "l < hn")
    case False
    then have eq: "hn = l" using less.prems(1) by simp
    have "fbs_loop arr x (int l, int l - 1, it, ub) = Inr (int l, int l - 1, it, ub)"
      by (subst fbs_loop.simps) simp
    moreover have "fbs_comparisons arr x (int l, int l - 1, it, ub) = []"
      by (subst fbs_comparisons.simps) simp
    ultimately show ?thesis
      using less.prems unfolding eq by (intro exI [of _ l]) simp
  next
    case True
    define mn where "mn = (l + hn - 1) div 2"
    note mid = fbs_mid [OF True, folded mn_def]
    have mn_lt: "mn < length arr" using mid(3) less.prems(2) by simp
    have idx: "py_index arr (int mn) = Inr (arr ! mn)"
      using mn_lt by (simp add: py_index_def)
    have enter: "int l \<le> int hn - 1" using True by simp
    show ?thesis
    proof (cases "x \<le> arr ! mn")
      case ge: True
      have body: "fbs_body arr x (int l, int hn - 1, it, ub) =
          Inr (int l, int mn - 1, it + 1, Some (arr ! mn))"
        using ge by (simp add: fbs_body_def Let_def mid(1) idx)
      have loop: "fbs_loop arr x (int l, int hn - 1, it, ub) =
          fbs_loop arr x (int l, int mn - 1, it + 1, Some (arr ! mn))"
        using enter by (subst fbs_loop.simps) (simp add: body)
      have cmps: "fbs_comparisons arr x (int l, int hn - 1, it, ub) =
          arr ! mn # fbs_comparisons arr x (int l, int mn - 1, it + 1, Some (arr ! mn))"
        using enter by (subst fbs_comparisons.simps) (simp add: body mid(1) idx)
      have hi: "\<forall>k. mn \<le> k \<and> k < length arr \<longrightarrow> x \<le> arr ! k"
      proof (intro allI impI)
        fix k assume "mn \<le> k \<and> k < length arr"
        then have "arr ! mn \<le> arr ! k"
          using assms(1) by (simp add: sorted_nth_mono)
        with ge show "x \<le> arr ! k" by simp
      qed
      have "mn - l < hn - l" using mid(2,3) by linarith
      from less.hyps [OF this mid(2) _ less.prems(3) hi, of "Some (arr ! mn)" "it + 1"]
      obtain p where p: "p \<le> length arr" "\<forall>k < p. arr ! k < x"
        "\<forall>k. p \<le> k \<and> k < length arr \<longrightarrow> x \<le> arr ! k"
        "fbs_loop arr x (int l, int mn - 1, it + 1, Some (arr ! mn)) =
          Inr (int p, int p - 1,
               it + 1 + int (length (fbs_comparisons arr x
                  (int l, int mn - 1, it + 1, Some (arr ! mn)))),
               if p < length arr then Some (arr ! p) else None)"
        using mn_lt by auto
      show ?thesis
        unfolding loop cmps using p by (intro exI [of _ p]) simp
    next
      case lt: False
      have body: "fbs_body arr x (int l, int hn - 1, it, ub) =
          Inr (int (Suc mn), int hn - 1, it + 1, ub)"
        using lt by (simp add: fbs_body_def Let_def mid(1) idx add.commute)
      have loop: "fbs_loop arr x (int l, int hn - 1, it, ub) =
          fbs_loop arr x (int (Suc mn), int hn - 1, it + 1, ub)"
        using enter by (subst fbs_loop.simps) (simp add: body)
      have cmps: "fbs_comparisons arr x (int l, int hn - 1, it, ub) =
          arr ! mn # fbs_comparisons arr x (int (Suc mn), int hn - 1, it + 1, ub)"
        using enter by (subst fbs_comparisons.simps) (simp add: body mid(1) idx)
      have lo: "\<forall>k < Suc mn. arr ! k < x"
      proof (intro allI impI)
        fix k assume "k < Suc mn"
        then have "arr ! k \<le> arr ! mn"
          using assms(1) mn_lt by (simp add: sorted_nth_mono)
        with lt show "arr ! k < x" by simp
      qed
      have "hn - Suc mn < hn - l" using mid(2,3) by linarith
      moreover have "Suc mn \<le> hn" using mid(3) by simp
      ultimately obtain p where p: "p \<le> length arr" "\<forall>k < p. arr ! k < x"
        "\<forall>k. p \<le> k \<and> k < length arr \<longrightarrow> x \<le> arr ! k"
        "fbs_loop arr x (int (Suc mn), int hn - 1, it + 1, ub) =
          Inr (int p, int p - 1,
               it + 1 + int (length (fbs_comparisons arr x
                  (int (Suc mn), int hn - 1, it + 1, ub))),
               if p < length arr then Some (arr ! p) else None)"
        using less.hyps [of hn "Suc mn" ub "it + 1"] less.prems(2,4,5) lo by blast
      show ?thesis
        unfolding loop cmps using p by (intro exI [of _ p]) simp
    qed
  qed
qed

lemma partition_point_least:
  fixes arr :: "'a::linorder list"
  assumes "sorted arr" and "p \<le> length arr" and "\<forall>k < p. arr ! k < x"
    and "\<forall>k. p \<le> k \<and> k < length arr \<longrightarrow> x \<le> arr ! k"
  shows "(if p < length arr then Some (arr ! p) else None) =
         (if \<exists>a \<in> set arr. x \<le> a then Some (Min {a \<in> set arr. x \<le> a}) else None)"
proof (cases "p < length arr")
  case True
  let ?S = "{a \<in> set arr. x \<le> a}"
  have mem: "arr ! p \<in> ?S" using True assms(4) by simp
  have "Min ?S = arr ! p"
  proof (rule Min_eqI)
    show "finite ?S" by simp
    show "arr ! p \<in> ?S" by (rule mem)
  next
    fix y assume "y \<in> ?S"
    then obtain k where k: "k < length arr" "arr ! k = y" "x \<le> y"
      by (auto simp: in_set_conv_nth)
    then have "p \<le> k" using assms(3) by (meson not_le leD)
    then show "arr ! p \<le> y"
      using assms(1) k by (auto simp: sorted_nth_mono)
  qed
  with True mem show ?thesis by auto
next
  case False
  then have "p = length arr" using assms(2) by simp
  then have "\<not> (\<exists>a \<in> set arr. x \<le> a)"
    using assms(3) by (metis in_set_conv_nth leD)
  with False show ?thesis by simp
qed

text \<open>
  Claim C9: on an array sorted in non-decreasing order, \<open>float_binary_search\<close> returns
  the number of comparisons \<open>arr[mid] >= x\<close> it has performed and the smallest element
  of the array that is at least \<open>x\<close>, or \<open>None\<close> when there is none.
\<close>

theorem float_binary_search_spec:
  fixes arr :: "'a::linorder list"
  assumes "sorted arr"
  shows "float_binary_search arr x =
     Inr (int (length (fbs_comparisons arr x (0, int (length arr) - 1, 0, None))),
          if \<exists>a \<in> set arr. x \<le> a then Some (Min {a \<in> set arr. x \<le> a}) else None)"
proof -
  have "\<exists>p. p \<le> length arr \<and> (\<forall>k < p. arr ! k < x)
      \<and> (\<forall>k. p \<le> k \<and> k < length arr \<longrightarrow> x \<le> arr ! k)
      \<and> fbs_loop arr x (int 0, int (length arr) - 1, 0, None) =
          Inr (int p, int p - 1,
               0 + int (length (fbs_comparisons arr x (int 0, int (length arr) - 1, 0, None))),
               if p < length arr then Some (arr ! p) else None)"
    by (rule fbs_loop_inv [OF assms]) auto
  then obtain p where p: "p \<le> length arr" "\<forall>k < p. arr ! k < x"
    "\<forall>k. p \<le> k \<and> k < length arr \<longrightarrow> x \<le> arr ! k"
    "fbs_loop arr x (0, int (length arr) - 1, 0, None) =
      Inr (int p, int p - 1,
           int (length (fbs_comparisons arr x (0, int (length arr) - 1, 0, None))),
           if p < length arr then Some (arr ! p) else None)"
    by auto
  show ?thesis
    unfolding float_binary_search_def Let_def p(4)
    using partition_point_least [OF assms p(1,2,3)] by simp
qed

theorem float_binary_search_spec_witness:
  "sorted [1, 3, 5, 7 :: int]
   \<and> float_binary_search [1, 3, 5, 7 :: int] 4 = Inr (2, Some 5)
   \<and> length (fbs_comparisons [1, 3, 5, 7 :: int] 4 (0, 3, 0, None)) = 2
   \<and> Min {a \<in> set [1, 3, 5, 7 :: int]. 4 \<le> a} = 5"
proof -
  have s: "sorted [1, 3, 5, 7 :: int]" by simp
  have v: "float_binary_search [1, 3, 5, 7 :: int] 4 = Inr (2, Some 5)"
    by code_simp
  have c: "length (fbs_comparisons [1, 3, 5, 7 :: int] 4 (0, 3, 0, None)) = 2"
    by code_simp
  have "\<exists>a \<in> set [1, 3, 5, 7 :: int]. 4 \<le> a" by simp
  with float_binary_search_spec [OF s, of 4] v
  have "Min {a \<in> set [1, 3, 5, 7 :: int]. 4 \<le> a} = 5"
    by (simp del: set_simps)
  with s v c show ?thesis by blast
qed

subsection \<open>Borders, the LPS array and the Knuth-Morris-Pratt search\<close>

lemma is_border_take:
  assumes "n \<le> length p"
  shows "is_border (take n p) k \<longleftrightarrow> k < n \<and> (\<forall>j < k. p ! j = p ! (n - k + j))"
proof (cases "k < n")
  case False
  with assms show ?thesis by (simp add: is_border_def)
next
  case True
  have "take k (take n p) = drop (n - k) (take n p) \<longleftrightarrow>
      (\<forall>j < k. p ! j = p ! (n - k + j))"
    using True assms by (auto simp: list_eq_iff_nth_eq min_def)
  with True assms show ?thesis by (simp add: is_border_def)
qed

lemma border_of_border:
  assumes "n \<le> length p" and "is_border (take n p) k" and "is_border (take k p) j"
  shows "is_border (take n p) j"
proof -
  have k: "k < n" "\<forall>t < k. p ! t = p ! (n - k + t)"
    using assms(1,2) by (simp_all add: is_border_take)
  then have "k \<le> length p" using assms(1) by simp
  then have j: "j < k" "\<forall>t < j. p ! t = p ! (k - j + t)"
    using assms(3) by (simp_all add: is_border_take)
  have "p ! t = p ! (n - j + t)" if "t < j" for t
  proof -
    have "p ! t = p ! (k - j + t)" using j that by simp
    also have "\<dots> = p ! (n - k + (k - j + t))" using k j that by simp
    also have "n - k + (k - j + t) = n - j + t" using k j that by simp
    finally show ?thesis .
  qed
  with j k assms(1) show ?thesis by (simp add: is_border_take)
qed

lemma border_between:
  assumes "n \<le> length p" and "is_border (take n p) k" and "is_border (take n p) j"
    and "j < k"
  shows "is_border (take k p) j"
proof -
  have k: "k < n" "\<forall>t < k. p ! t = p ! (n - k + t)"
    using assms(1,2) by (simp_all add: is_border_take)
  have j: "\<forall>t < j. p ! t = p ! (n - j + t)"
    using assms(1,3) by (simp_all add: is_border_take)
  have "p ! t = p ! (k - j + t)" if "t < j" for t
  proof -
    have "p ! (k - j + t) = p ! (n - k + (k - j + t))" using k assms(4) that by simp
    also have "n - k + (k - j + t) = n - j + t" using k assms(4) that by simp
    finally show ?thesis using j that by simp
  qed
  moreover have "k \<le> length p" using k assms(1) by simp
  ultimately show ?thesis using assms(4) by (simp add: is_border_take)
qed

lemma border_extend:
  assumes "n < length p" and "is_border (take n p) k" and "p ! k = p ! n"
  shows "is_border (take (Suc n) p) (Suc k)"
proof -
  have k: "k < n" "\<forall>t < k. p ! t = p ! (n - k + t)"
    using assms(1,2) by (simp_all add: is_border_take)
  have "p ! t = p ! (Suc n - Suc k + t)" if "t < Suc k" for t
    using that k assms(3) by (cases "t = k") auto
  with k assms(1) show ?thesis by (simp add: is_border_take)
qed

lemma border_restrict:
  assumes "n < length p" and "is_border (take (Suc n) p) (Suc k)"
  shows "is_border (take n p) k \<and> p ! k = p ! n"
proof -
  have k: "k < n" "\<forall>t < Suc k. p ! t = p ! (n - k + t)"
    using assms by (simp_all add: is_border_take)
  then have "p ! k = p ! n" by (metis le_add_diff_inverse2 less_imp_le lessI)
  moreover have "\<forall>t < k. p ! t = p ! (n - k + t)" using k(2) by simp
  ultimately show ?thesis using k(1) assms(1) by (simp add: is_border_take)
qed

lemma border_zero:
  "0 < n \<Longrightarrow> n \<le> length p \<Longrightarrow> is_border (take n p) 0"
  by (simp add: is_border_take)

lemma border_less:
  "n \<le> length p \<Longrightarrow> is_border (take n p) k \<Longrightarrow> k < n"
  by (simp add: is_border_take)

lemma py_index_map_int:
  "k < length L \<Longrightarrow> py_index (map int L) (int k) = Inr (int (L ! k))"
  by (simp add: py_index_def)

lemma py_setitem_map_int:
  "k < length L \<Longrightarrow> py_setitem (map int L) (int k) (int v) = Inr (map int (L[k := v]))"
  by (simp add: py_setitem_def map_update)

lemma int_plus_one:
  "int n + 1 = int (Suc n)"
  by simp

lemma lps_loop_exit:
  "length p \<le> i \<Longrightarrow> lps_loop p lps len (int i) = Some (Inr lps)"
  by (subst lps_loop.simps) simp

lemma lps_loop_match:
  assumes "i < length p" and "l < i" and "length L = length p" and "p ! i = p ! l"
  shows "lps_loop p (map int L) (int l) (int i) =
         lps_loop p (map int (L[i := Suc l])) (int (Suc l)) (int (Suc i))"
proof -
  have a: "py_index p (int i) = Inr (p ! i)" using assms(1) by (simp add: py_index_nat)
  have b: "py_index p (int l) = Inr (p ! l)" using assms(1,2) by (simp add: py_index_nat)
  have "py_setitem (map int L) (int i) (int (Suc l)) = Inr (map int (L[i := Suc l]))"
    using assms(1,3) by (intro py_setitem_map_int) simp
  then have c: "py_setitem (map int L) (int i) (int (Suc l)) = Inr (map int (L[i := Suc l]))" .
  show ?thesis
    using assms(1,4)
    by (subst lps_loop.simps) (simp add: a b c Let_def int_plus_one del: of_nat_Suc)
qed

lemma lps_loop_fallback:
  assumes "i < length p" and "l < i" and "length L = length p" and "p ! i \<noteq> p ! l"
    and "l \<noteq> 0"
  shows "lps_loop p (map int L) (int l) (int i) =
         lps_loop p (map int L) (int (L ! (l - 1))) (int i)"
proof -
  have a: "py_index p (int i) = Inr (p ! i)" using assms(1) by (simp add: py_index_nat)
  have b: "py_index p (int l) = Inr (p ! l)" using assms(1,2) by (simp add: py_index_nat)
  have e: "int l - 1 = int (l - 1)" using assms(5) by linarith
  have c: "py_index (map int L) (int l - 1) = Inr (int (L ! (l - 1)))"
    unfolding e using assms(1,2,3) by (intro py_index_map_int) simp
  show ?thesis
    using assms(1,4,5)
    by (subst lps_loop.simps) (simp add: a b c)
qed

lemma lps_loop_reset:
  assumes "i < length p" and "length L = length p" and "p ! i \<noteq> p ! 0"
  shows "lps_loop p (map int L) (int 0) (int i) =
         lps_loop p (map int (L[i := 0])) (int 0) (int (Suc i))"
proof -
  have a: "py_index p (int i) = Inr (p ! i)" using assms(1) by (simp add: py_index_nat)
  have "p \<noteq> []" using assms(1) by auto
  then have b: "py_index p 0 = Inr (p ! 0)" by (simp add: py_index_def)
  have "py_setitem (map int L) (int i) (int 0) = Inr (map int (L[i := 0]))"
    using assms(1,2) by (intro py_setitem_map_int) simp
  then have c: "py_setitem (map int L) (int i) 0 = Inr (map int (L[i := 0]))"
    by simp
  show ?thesis
    using assms(1,3)
    by (subst lps_loop.simps) (simp add: a b c int_plus_one del: of_nat_Suc)
qed

lemma longest_border_Suc_match:
  assumes "i < length p" and "is_border (take i p) l"
    and "\<forall>k. l < k \<and> is_border (take i p) k \<longrightarrow> p ! k \<noteq> p ! i"
    and "p ! i = p ! l"
  shows "longest_border (take (Suc i) p) (Suc l)"
proof -
  have "is_border (take (Suc i) p) (Suc l)"
    using assms(1,2,4) by (intro border_extend) simp_all
  moreover have "j \<le> Suc l" if "is_border (take (Suc i) p) j" for j
  proof (cases j)
    case 0
    then show ?thesis by simp
  next
    case (Suc j')
    with border_restrict [OF assms(1), of j'] that
    have "is_border (take i p) j'" "p ! j' = p ! i" by simp_all
    with assms(3) have "\<not> l < j'" by blast
    with Suc show ?thesis by simp
  qed
  ultimately show ?thesis by (simp add: longest_border_def)
qed

lemma longest_border_Suc_zero:
  assumes "i < length p" and "0 < i"
    and "\<forall>k. 0 < k \<and> is_border (take i p) k \<longrightarrow> p ! k \<noteq> p ! i"
    and "p ! i \<noteq> p ! 0"
  shows "longest_border (take (Suc i) p) 0"
proof -
  have "is_border (take (Suc i) p) 0"
    using assms(1) by (intro border_zero) simp_all
  moreover have "j \<le> 0" if "is_border (take (Suc i) p) j" for j
  proof (cases j)
    case 0
    then show ?thesis by simp
  next
    case (Suc j')
    with border_restrict [OF assms(1), of j'] that
    have b: "is_border (take i p) j'" "p ! j' = p ! i" by simp_all
    with assms(3,4) show ?thesis by (cases "j' = 0") auto
  qed
  ultimately show ?thesis by (simp add: longest_border_def)
qed

lemma lps_loop_correct:
  assumes "0 < i" and "i \<le> length p" and "length L = length p"
    and "is_border (take i p) l"
    and "\<forall>k. l < k \<and> is_border (take i p) k \<longrightarrow> p ! k \<noteq> p ! i"
    and "\<forall>k < i. longest_border (take (Suc k) p) (L ! k)"
  shows "\<exists>L'. lps_loop p (map int L) (int l) (int i) = Some (Inr (map int L'))
      \<and> length L' = length p
      \<and> (\<forall>k < length p. longest_border (take (Suc k) p) (L' ! k))"
  using assms
proof (induction "2 * (length p - i) + l" arbitrary: L l i rule: less_induct)
  case less
  note pos = less.prems(1) and le = less.prems(2) and len = less.prems(3)
    and bord = less.prems(4) and maxi = less.prems(5) and tab = less.prems(6)
  have l_lt: "l < i" using border_less [OF le bord] .
  show ?case
  proof (cases "i < length p")
    case False
    then have "i = length p" using le by simp
    then show ?thesis
      using tab len by (intro exI [of _ L]) (simp add: lps_loop_exit)
  next
    case True
    consider (match) "p ! i = p ! l" | (fallback) "p ! i \<noteq> p ! l" "l \<noteq> 0"
      | (reset) "p ! i \<noteq> p ! l" "l = 0" by blast
    then show ?thesis
    proof cases
      case match
      note lb = longest_border_Suc_match [OF True bord maxi match]
      have step: "lps_loop p (map int L) (int l) (int i) =
          lps_loop p (map int (L[i := Suc l])) (int (Suc l)) (int (Suc i))"
        by (rule lps_loop_match [OF True l_lt len match])
      have "\<exists>L'. lps_loop p (map int (L[i := Suc l])) (int (Suc l)) (int (Suc i)) =
            Some (Inr (map int L'))
          \<and> length L' = length p
          \<and> (\<forall>k < length p. longest_border (take (Suc k) p) (L' ! k))"
      proof (rule less.hyps)
        show "2 * (length p - Suc i) + Suc l < 2 * (length p - i) + l"
          using True by linarith
        show "0 < Suc i" by simp
        show "Suc i \<le> length p" using True by simp
        show "length (L[i := Suc l]) = length p" using len by simp
        show "is_border (take (Suc i) p) (Suc l)"
          using lb by (simp add: longest_border_def)
        show "\<forall>k. Suc l < k \<and> is_border (take (Suc i) p) k \<longrightarrow> p ! k \<noteq> p ! Suc i"
          using lb by (auto simp: longest_border_def)
        show "\<forall>k < Suc i. longest_border (take (Suc k) p) (L[i := Suc l] ! k)"
          using tab lb True len by (auto simp: less_Suc_eq)
      qed
      then show ?thesis unfolding step .
    next
      case fallback
      define l' where "l' = L ! (l - 1)"
      have "l - 1 < i" using l_lt by simp
      with tab have "longest_border (take (Suc (l - 1)) p) l'"
        unfolding l'_def by blast
      then have lb: "longest_border (take l p) l'" using fallback(2) by simp
      have l_le: "l \<le> length p" using l_lt le by simp
      have b': "is_border (take l p) l'" using lb by (simp add: longest_border_def)
      have l'_lt: "l' < l" using border_less [OF l_le b'] .
      have step: "lps_loop p (map int L) (int l) (int i) =
          lps_loop p (map int L) (int l') (int i)"
        unfolding l'_def by (rule lps_loop_fallback [OF True l_lt len fallback])
      have "\<exists>L'. lps_loop p (map int L) (int l') (int i) = Some (Inr (map int L'))
          \<and> length L' = length p
          \<and> (\<forall>k < length p. longest_border (take (Suc k) p) (L' ! k))"
      proof (rule less.hyps)
        show "2 * (length p - i) + l' < 2 * (length p - i) + l"
          using l'_lt by simp
        show "0 < i" by (rule pos)
        show "i \<le> length p" by (rule le)
        show "length L = length p" by (rule len)
        show "is_border (take i p) l'"
          by (rule border_of_border [OF le bord b'])
        show "\<forall>k. l' < k \<and> is_border (take i p) k \<longrightarrow> p ! k \<noteq> p ! i"
        proof (intro allI impI)
          fix k assume k: "l' < k \<and> is_border (take i p) k"
          consider "l < k" | "k = l" | "k < l" by linarith
          then show "p ! k \<noteq> p ! i"
          proof cases
            case 1
            with k maxi show ?thesis by blast
          next
            case 2
            with fallback(1) show ?thesis by simp
          next
            case 3
            from k have "is_border (take i p) k" by simp
            from border_between [OF le bord this 3] have "is_border (take l p) k" .
            with lb have "k \<le> l'" by (simp add: longest_border_def)
            with k show ?thesis by simp
          qed
        qed
        show "\<forall>k < i. longest_border (take (Suc k) p) (L ! k)" by (rule tab)
      qed
      then show ?thesis unfolding step .
    next
      case reset
      have maxi0: "\<forall>k. 0 < k \<and> is_border (take i p) k \<longrightarrow> p ! k \<noteq> p ! i"
        using maxi reset(2) by simp
      have neq0: "p ! i \<noteq> p ! 0" using reset by simp
      note lb = longest_border_Suc_zero [OF True pos maxi0 neq0]
      have step: "lps_loop p (map int L) (int l) (int i) =
          lps_loop p (map int (L[i := 0])) (int 0) (int (Suc i))"
        unfolding reset(2) by (rule lps_loop_reset [OF True len neq0])
      have "\<exists>L'. lps_loop p (map int (L[i := 0])) (int 0) (int (Suc i)) =
            Some (Inr (map int L'))
          \<and> length L' = length p
          \<and> (\<forall>k < length p. longest_border (take (Suc k) p) (L' ! k))"
      proof (rule less.hyps)
        show "2 * (length p - Suc i) + 0 < 2 * (length p - i) + l"
          using True by linarith
        show "0 < Suc i" by simp
        show "Suc i \<le> length p" using True by simp
        show "length (L[i := 0]) = length p" using len by simp
        show "is_border (take (Suc i) p) 0"
          using lb by (simp add: longest_border_def)
        show "\<forall>k. 0 < k \<and> is_border (take (Suc i) p) k \<longrightarrow> p ! k \<noteq> p ! Suc i"
          using lb by (auto simp: longest_border_def)
        show "\<forall>k < Suc i. longest_border (take (Suc k) p) (L[i := 0] ! k)"
          using tab lb True len by (auto simp: less_Suc_eq)
      qed
      then show ?thesis unfolding step .
    qed
  qed
qed

lemma compute_lps_correct:
  assumes "pattern \<noteq> []"
  shows "\<exists>L. compute_lps pattern = Some (Inr (map int L))
      \<and> length L = length pattern
      \<and> (\<forall>k < length pattern. longest_border (take (Suc k) pattern) (L ! k))"
proof -
  let ?L = "replicate (length pattern) (0 :: nat)"
  have m: "1 \<le> length pattern" using assms by (simp add: Suc_le_eq)
  have b0: "is_border (take 1 pattern) 0"
    by (rule border_zero [OF _ m]) simp
  have only0: "k = 0" if "is_border (take 1 pattern) k" for k
    using border_less [OF m that] by simp
  have "\<exists>L'. lps_loop pattern (map int ?L) (int 0) (int 1) = Some (Inr (map int L'))
      \<and> length L' = length pattern
      \<and> (\<forall>k < length pattern. longest_border (take (Suc k) pattern) (L' ! k))"
  proof (rule lps_loop_correct)
    show "0 < (1::nat)" by simp
    show "1 \<le> length pattern" by (rule m)
    show "length ?L = length pattern" by simp
    show "is_border (take 1 pattern) 0" by (rule b0)
    show "\<forall>k. 0 < k \<and> is_border (take 1 pattern) k \<longrightarrow> pattern ! k \<noteq> pattern ! 1"
      using only0 by auto
    have "?L ! 0 = 0" using assms by (intro nth_replicate) simp
    then show "\<forall>k < 1. longest_border (take (Suc k) pattern) (?L ! k)"
      using b0 only0 by (auto simp: longest_border_def)
  qed
  moreover have "compute_lps pattern = lps_loop pattern (map int ?L) (int 0) (int 1)"
    by (simp add: compute_lps_def)
  ultimately show ?thesis by simp
qed

lemma kmp_loop_exit:
  "length text \<le> i \<Longrightarrow> kmp_loop text pattern lps (int i) j = Some (Inr (- 1))"
  by (subst kmp_loop.simps) simp

lemma kmp_loop_found:
  assumes "i < length text" and "j < length pattern" and "j \<le> i"
    and "pattern ! j = text ! i" and "Suc j = length pattern"
  shows "kmp_loop text pattern lps (int i) (int j) = Some (Inr (int (i - j)))"
proof -
  have a: "py_index pattern (int j) = Inr (pattern ! j)"
    using assms(2) by (simp add: py_index_nat)
  have b: "py_index text (int i) = Inr (text ! i)"
    using assms(1) by (simp add: py_index_nat)
  have e: "int j + 1 = int (length pattern)" using assms(5) by linarith
  have d: "int i + 1 - int (length pattern) = int (i - j)" using assms(3,5) by linarith
  show ?thesis
    using assms(1,4)
    by (subst kmp_loop.simps) (simp add: a b e d Let_def)
qed

lemma kmp_loop_advance:
  assumes "i < length text" and "j < length pattern"
    and "pattern ! j = text ! i" and "Suc j \<noteq> length pattern"
  shows "kmp_loop text pattern lps (int i) (int j) =
         kmp_loop text pattern lps (int (Suc i)) (int (Suc j))"
proof -
  have a: "py_index pattern (int j) = Inr (pattern ! j)"
    using assms(2) by (simp add: py_index_nat)
  have b: "py_index text (int i) = Inr (text ! i)"
    using assms(1) by (simp add: py_index_nat)
  have ne: "int (Suc j) \<noteq> int (length pattern)" using assms(4) by linarith
  show ?thesis
    using assms(1,3) ne
    by (subst kmp_loop.simps) (simp add: a b Let_def int_plus_one del: of_nat_Suc)
qed

lemma kmp_loop_fallback:
  assumes "i < length text" and "j < length pattern" and "length L = length pattern"
    and "pattern ! j \<noteq> text ! i" and "j \<noteq> 0" and "L ! (j - 1) < j"
  shows "kmp_loop text pattern (map int L) (int i) (int j) =
         kmp_loop text pattern (map int L) (int i) (int (L ! (j - 1)))"
proof -
  have a: "py_index pattern (int j) = Inr (pattern ! j)"
    using assms(2) by (simp add: py_index_nat)
  have b: "py_index text (int i) = Inr (text ! i)"
    using assms(1) by (simp add: py_index_nat)
  have e: "int j - 1 = int (j - 1)" using assms(5) by linarith
  have c: "py_index (map int L) (int j - 1) = Inr (int (L ! (j - 1)))"
    unfolding e using assms(2,3) by (intro py_index_map_int) simp
  have ne: "L ! (j - 1) \<noteq> length pattern" using assms(2,6) by linarith
  show ?thesis
    using assms(1,4,5) ne
    by (subst kmp_loop.simps) (simp add: a b c Let_def)
qed

lemma kmp_loop_skip:
  assumes "i < length text" and "pattern \<noteq> []" and "pattern ! 0 \<noteq> text ! i"
  shows "kmp_loop text pattern lps (int i) 0 = kmp_loop text pattern lps (int (Suc i)) 0"
proof -
  have a: "py_index pattern 0 = Inr (pattern ! 0)"
    using assms(2) by (simp add: py_index_def)
  have b: "py_index text (int i) = Inr (text ! i)"
    using assms(1) by (simp add: py_index_nat)
  show ?thesis
    using assms
    by (subst kmp_loop.simps) (simp add: a b Let_def int_plus_one del: of_nat_Suc)
qed

lemma kmp_loop_correct:
  assumes "pattern \<noteq> []" and "length L = length pattern"
    and "\<forall>k < length pattern. longest_border (take (Suc k) pattern) (L ! k)"
    and "j \<le> i" and "i \<le> length text" and "j < length pattern"
    and "\<forall>t < j. text ! (i - j + t) = pattern ! t"
    and "\<forall>k < i - j. \<not> occurs_at text pattern k"
  shows "\<exists>r. kmp_loop text pattern (map int L) (int i) (int j) = Some (Inr r)
      \<and> first_match text pattern r"
  using assms(4-)
proof (induction "2 * (length text - i) + j" arbitrary: i j rule: less_induct)
  case less
  note ji = less.prems(1) and iN = less.prems(2) and jM = less.prems(3)
    and matched = less.prems(4) and none = less.prems(5)
  let ?M = "length pattern" and ?N = "length text"
  show ?case
  proof (cases "i < ?N")
    case False
    then have i: "i = ?N" using iN by simp
    have "\<not> occurs_at text pattern k" for k
    proof (cases "k < i - j")
      case True
      then show ?thesis using none by blast
    next
      case False
      then have "?N < k + ?M" using i jM ji by linarith
      then show ?thesis by (rule no_occurrence_beyond)
    qed
    then have "first_match text pattern (- 1)" by (simp add: first_matchI_none)
    moreover have "kmp_loop text pattern (map int L) (int i) (int j) = Some (Inr (- 1))"
      using i by (intro kmp_loop_exit) simp
    ultimately show ?thesis by blast
  next
    case True
    consider (found) "pattern ! j = text ! i" "Suc j = ?M"
      | (advance) "pattern ! j = text ! i" "Suc j \<noteq> ?M"
      | (fallback) "pattern ! j \<noteq> text ! i" "j \<noteq> 0"
      | (skip) "pattern ! j \<noteq> text ! i" "j = 0" by blast
    then show ?thesis
    proof cases
      case found
      have "text ! (i - j + t) = pattern ! t" if "t < ?M" for t
      proof (cases "t < j")
        case True
        then show ?thesis using matched by simp
      next
        case False
        then have "t = j" using that found(2) by simp
        then show ?thesis using found(1) ji by simp
      qed
      moreover have "i - j + ?M \<le> ?N" using True ji found(2) by linarith
      ultimately have "occurs_at text pattern (i - j)"
        by (simp add: occurs_at_nth)
      then have "first_match text pattern (int (i - j))"
        using none by (simp add: first_matchI_found)
      moreover have "kmp_loop text pattern (map int L) (int i) (int j) =
          Some (Inr (int (i - j)))"
        by (rule kmp_loop_found [OF True jM ji found])
      ultimately show ?thesis by blast
    next
      case advance
      have step: "kmp_loop text pattern (map int L) (int i) (int j) =
          kmp_loop text pattern (map int L) (int (Suc i)) (int (Suc j))"
        by (rule kmp_loop_advance [OF True jM advance])
      have "\<exists>r. kmp_loop text pattern (map int L) (int (Suc i)) (int (Suc j)) = Some (Inr r)
          \<and> first_match text pattern r"
      proof (rule less.hyps)
        show "2 * (?N - Suc i) + Suc j < 2 * (?N - i) + j" using True by linarith
        show "Suc j \<le> Suc i" using ji by simp
        show "Suc i \<le> ?N" using True by simp
        show "Suc j < ?M" using jM advance(2) by simp
        show "\<forall>t < Suc j. text ! (Suc i - Suc j + t) = pattern ! t"
          using matched advance(1) ji by (auto simp: less_Suc_eq)
        show "\<forall>k < Suc i - Suc j. \<not> occurs_at text pattern k"
          using none by simp
      qed
      then show ?thesis unfolding step .
    next
      case fallback
      define j' where "j' = L ! (j - 1)"
      have "j - 1 < ?M" using jM by simp
      with assms(3) have "longest_border (take (Suc (j - 1)) pattern) j'"
        unfolding j'_def by blast
      then have lb: "longest_border (take j pattern) j'" using fallback(2) by simp
      have j_le: "j \<le> ?M" using jM by simp
      have b': "is_border (take j pattern) j'" using lb by (simp add: longest_border_def)
      have j'_lt: "j' < j" using border_less [OF j_le b'] .
      have b'_nth: "\<forall>t < j'. pattern ! t = pattern ! (j - j' + t)"
        using b' j_le by (simp add: is_border_take)
      have step: "kmp_loop text pattern (map int L) (int i) (int j) =
          kmp_loop text pattern (map int L) (int i) (int j')"
        unfolding j'_def
        by (rule kmp_loop_fallback [OF True jM assms(2) fallback j'_lt [unfolded j'_def]])
      have "\<exists>r. kmp_loop text pattern (map int L) (int i) (int j') = Some (Inr r)
          \<and> first_match text pattern r"
      proof (rule less.hyps)
        show "2 * (?N - i) + j' < 2 * (?N - i) + j" using j'_lt by simp
        show "j' \<le> i" using j'_lt ji by simp
        show "i \<le> ?N" by (rule iN)
        show "j' < ?M" using j'_lt jM by simp
        show "\<forall>t < j'. text ! (i - j' + t) = pattern ! t"
        proof (intro allI impI)
          fix t assume t: "t < j'"
          have "j - j' + t < j" using t j'_lt by linarith
          then have "text ! (i - j + (j - j' + t)) = pattern ! (j - j' + t)"
            using matched by blast
          moreover have "i - j + (j - j' + t) = i - j' + t"
            using t j'_lt ji by simp
          ultimately show "text ! (i - j' + t) = pattern ! t"
            using b'_nth t by simp
        qed
        show "\<forall>k < i - j'. \<not> occurs_at text pattern k"
        proof (intro allI impI)
          fix k assume k: "k < i - j'"
          consider "k < i - j" | "k = i - j" | "i - j < k" by linarith
          then show "\<not> occurs_at text pattern k"
          proof cases
            case 1
            then show ?thesis using none by blast
          next
            case 2
            show ?thesis
            proof
              assume "occurs_at text pattern k"
              then have "text ! (k + j) = pattern ! j"
                using jM by (simp add: occurs_at_nth)
              with 2 ji fallback(1) show False by simp
            qed
          next
            case 3
            define c where "c = i - k"
            have c: "j' < c" "c < j" "k = i - c" "c \<le> i"
              using 3 k ji by (auto simp: c_def)
            show ?thesis
            proof
              assume occ: "occurs_at text pattern k"
              have "pattern ! t = pattern ! (j - c + t)" if "t < c" for t
              proof -
                have "t < ?M" using that c jM by simp
                with occ have "text ! (k + t) = pattern ! t"
                  by (simp add: occurs_at_nth)
                moreover have "j - c + t < j" using that c by linarith
                then have "text ! (i - j + (j - c + t)) = pattern ! (j - c + t)"
                  using matched by blast
                moreover have "i - j + (j - c + t) = k + t"
                  using that c ji by simp
                ultimately show ?thesis by simp
              qed
              then have "is_border (take j pattern) c"
                using c(2) j_le by (simp add: is_border_take)
              with lb have "c \<le> j'" by (simp add: longest_border_def)
              with c(1) show False by simp
            qed
          qed
        qed
      qed
      then show ?thesis unfolding step .
    next
      case skip
      have neq: "pattern ! 0 \<noteq> text ! i" using skip by simp
      have step: "kmp_loop text pattern (map int L) (int i) (int j) =
          kmp_loop text pattern (map int L) (int (Suc i)) (int 0)"
        unfolding skip(2) using kmp_loop_skip [OF True assms(1) neq] by simp
      have "\<exists>r. kmp_loop text pattern (map int L) (int (Suc i)) (int 0) = Some (Inr r)
          \<and> first_match text pattern r"
      proof (rule less.hyps)
        show "2 * (?N - Suc i) + 0 < 2 * (?N - i) + j" using True by linarith
        show "0 \<le> Suc i" by simp
        show "Suc i \<le> ?N" using True by simp
        show "0 < ?M" using assms(1) by simp
        show "\<forall>t < 0. text ! (Suc i - 0 + t) = pattern ! t" by simp
        show "\<forall>k < Suc i - 0. \<not> occurs_at text pattern k"
        proof (intro allI impI)
          fix k assume "k < Suc i - 0"
          then consider "k < i - j" | "k = i" using skip(2) by fastforce
          then show "\<not> occurs_at text pattern k"
          proof cases
            case 1
            then show ?thesis using none by blast
          next
            case 2
            show ?thesis
            proof
              assume "occurs_at text pattern k"
              then have "text ! (k + 0) = pattern ! 0"
                using assms(1) unfolding occurs_at_nth by blast
              with 2 neq show False by simp
            qed
          qed
        qed
      qed
      then show ?thesis unfolding step .
    qed
  qed
qed

lemma kmp_search_correct:
  assumes "pattern \<noteq> []"
  shows "\<exists>r. kmp_search text pattern = Some (Inr r) \<and> first_match text pattern r"
proof -
  from compute_lps_correct [OF assms] obtain L where
    L: "compute_lps pattern = Some (Inr (map int L))" "length L = length pattern"
       "\<forall>k < length pattern. longest_border (take (Suc k) pattern) (L ! k)"
    by blast
  have "\<exists>r. kmp_loop text pattern (map int L) (int 0) (int 0) = Some (Inr r)
      \<and> first_match text pattern r"
    using assms by (intro kmp_loop_correct [OF assms L(2,3)]) simp_all
  then show ?thesis
    by (simp add: kmp_search_def L(1))
qed

subsection \<open>The three searches together\<close>

lemma first_match_unique:
  assumes "first_match text pattern r" and "first_match text pattern r'"
  shows "r = r'"
proof (cases "\<exists>k. occurs_at text pattern k")
  case False
  with assms show ?thesis by (simp add: first_match_def)
next
  case True
  with assms have r: "0 \<le> r" "occurs_at text pattern (nat r)"
      "\<forall>k < nat r. \<not> occurs_at text pattern k"
    and r': "0 \<le> r'" "occurs_at text pattern (nat r')"
      "\<forall>k < nat r'. \<not> occurs_at text pattern k"
    by (simp_all add: first_match_def)
  have "\<not> nat r < nat r'" using r(2) r'(3) by blast
  moreover have "\<not> nat r' < nat r" using r'(2) r(3) by blast
  ultimately have "nat r = nat r'" by linarith
  with r(1) r'(1) show ?thesis by simp
qed

text \<open>
  Claim C6: for a non-empty pattern, \<open>compute_lps\<close> returns a list with one entry per
  position of the pattern, and the entry at position \<open>i\<close> is the length of the longest
  proper prefix of \<open>pattern[0..=i]\<close> that is also a suffix of \<open>pattern[0..=i]\<close>.
\<close>

theorem compute_lps_spec:
  assumes "pattern \<noteq> []"
  shows "\<exists>lps. compute_lps pattern = Some (Inr lps)
      \<and> length lps = length pattern
      \<and> (\<forall>i < length pattern.
            0 \<le> lps ! i \<and> longest_border (take (Suc i) pattern) (nat (lps ! i)))"
proof -
  from compute_lps_correct [OF assms] obtain L where
    L: "compute_lps pattern = Some (Inr (map int L))" "length L = length pattern"
       "\<forall>k < length pattern. longest_border (take (Suc k) pattern) (L ! k)"
    by blast
  show ?thesis
    using L by (intro exI [of _ "map int L"]) simp
qed

theorem compute_lps_spec_witness:
  "''ABABCABAB'' \<noteq> []
   \<and> compute_lps ''ABABCABAB'' = Some (Inr [0, 0, 1, 2, 0, 1, 2, 3, 4])
   \<and> longest_border ''ABABCABAB'' 4
   \<and> longest_border ''ABABC'' 0
   \<and> longest_border ''ABAB'' 2"
proof -
  have ne: "''ABABCABAB'' \<noteq> []" by simp
  have v: "compute_lps ''ABABCABAB'' = Some (Inr [0, 0, 1, 2, 0, 1, 2, 3, 4])"
    by code_simp
  from compute_lps_spec [OF ne] v
  have all: "\<forall>i < 9. longest_border (take (Suc i) ''ABABCABAB'')
      (nat ([0, 0, 1, 2, 0, 1, 2, 3, 4 :: int] ! i))"
    by simp
  from all [rule_format, of 8] have a: "longest_border ''ABABCABAB'' 4" by simp
  from all [rule_format, of 4] have b: "longest_border ''ABABC'' 0" by simp
  from all [rule_format, of 3] have c: "longest_border ''ABAB'' 2" by simp
  from ne v a b c show ?thesis by blast
qed

text \<open>
  Claim C1: for every text and every non-empty pattern, \<open>boyer_moore_search\<close>,
  \<open>kmp_search\<close> and \<open>rabin_karp_search\<close> each return the smallest offset at which the
  pattern occurs as a contiguous slice of the text, and -1 when it occurs nowhere.
\<close>

theorem searches_return_first_match:
  assumes "pattern \<noteq> []"
  shows "\<exists>r. boyer_moore_search text pattern = Some (Inr r)
      \<and> kmp_search text pattern = Some (Inr r)
      \<and> rabin_karp_search text pattern = Inr r
      \<and> first_match text pattern r
      \<and> (if \<exists>k. occurs_at text pattern k
         then 0 \<le> r \<and> occurs_at text pattern (nat r)
              \<and> (\<forall>k < nat r. \<not> occurs_at text pattern k)
         else r = - 1)"
proof -
  from boyer_moore_search_correct [OF assms] obtain r1 where
    r1: "boyer_moore_search text pattern = Some (Inr r1)" "first_match text pattern r1"
    by blast
  from kmp_search_correct [OF assms] obtain r2 where
    r2: "kmp_search text pattern = Some (Inr r2)" "first_match text pattern r2"
    by blast
  from rabin_karp_search_correct [OF assms] obtain r3 where
    r3: "rabin_karp_search text pattern = Inr r3" "first_match text pattern r3"
    by blast
  have "r2 = r1" "r3 = r1"
    using first_match_unique r1(2) r2(2) r3(2) by blast+
  with r1 r2 r3 show ?thesis
    unfolding first_match_def [symmetric] by blast
qed

theorem searches_return_first_match_witness:
  "str ''EXAMPLE'' \<noteq> []
   \<and> boyer_moore_search (str ''HERE IS A SIMPLE EXAMPLE'') (str ''EXAMPLE'') = Some (Inr 17)
   \<and> kmp_search (str ''HERE IS A SIMPLE EXAMPLE'') (str ''EXAMPLE'') = Some (Inr 17)
   \<and> rabin_karp_search (str ''HERE IS A SIMPLE EXAMPLE'') (str ''EXAMPLE'') = Inr 17
   \<and> occurs_at (str ''HERE IS A SIMPLE EXAMPLE'') (str ''EXAMPLE'') 17"
proof -
  have ne: "str ''EXAMPLE'' \<noteq> []" by (simp add: str_def)
  have k: "kmp_search (str ''HERE IS A SIMPLE EXAMPLE'') (str ''EXAMPLE'') = Some (Inr 17)"
    by code_simp
  have o: "occurs_at (str ''HERE IS A SIMPLE EXAMPLE'') (str ''EXAMPLE'') 17"
    by code_simp
  from searches_return_first_match [OF ne, of "str ''HERE IS A SIMPLE EXAMPLE''"] k
  have "boyer_moore_search (str ''HERE IS A SIMPLE EXAMPLE'') (str ''EXAMPLE'') = Some (Inr 17)"
    and "rabin_karp_search (str ''HERE IS A SIMPLE EXAMPLE'') (str ''EXAMPLE'') = Inr 17"
    by auto
  with ne k o show ?thesis by blast
qed

lemma kmp_search_empty_pattern:
  "text \<noteq> [] \<Longrightarrow> kmp_search text [] = Some (Inl IndexError)"
proof -
  assume "text \<noteq> []"
  have "compute_lps ([] :: 'a list) = Some (Inr [])"
    unfolding compute_lps_def Let_def by (subst lps_loop.simps) simp
  moreover have "kmp_loop text [] [] 0 0 = Some (Inl IndexError)"
    using \<open>text \<noteq> []\<close> by (subst kmp_loop.simps) (simp add: py_index_def)
  ultimately show ?thesis by (simp add: kmp_search_def)
qed

lemma sentinel_on_degenerate_input:
  "boyer_moore_search text [] = Some (Inr (- 1))"
  "boyer_moore_search [] pattern = Some (Inr (- 1))"
  "rabin_karp_search text [] = Inr (- 1)"
  "rabin_karp_search [] pattern = Inr (- 1)"
  "kmp_search [] pattern = Some (Inr (- 1))"
proof -
  show "boyer_moore_search text [] = Some (Inr (- 1))"
    and "boyer_moore_search [] pattern = Some (Inr (- 1))"
    by (simp_all add: boyer_moore_search_def)
  show "rabin_karp_search text [] = Inr (- 1)"
    and "rabin_karp_search [] pattern = Inr (- 1)"
    by (simp_all add: rabin_karp_search_def)
  show "kmp_search [] pattern = Some (Inr (- 1))"
  proof (cases "pattern = []")
    case True
    have "compute_lps pattern = Some (Inr [])"
      unfolding True compute_lps_def Let_def by (subst lps_loop.simps) simp
    moreover have "kmp_loop [] pattern [] 0 0 = Some (Inr (- 1))"
      by (subst kmp_loop.simps) simp
    ultimately show ?thesis by (simp add: kmp_search_def)
  next
    case False
    from kmp_search_correct [OF False, of "[]"] obtain r where
      r: "kmp_search [] pattern = Some (Inr r)" "first_match [] pattern r" by blast
    have "\<not> occurs_at [] pattern k" for k
      using False by (simp add: occurs_at_def)
    with r(2) have "r = - 1" by (simp add: first_match_def)
    with r(1) show ?thesis by simp
  qed
qed

lemma sentinel_on_long_pattern:
  assumes "length text < length pattern"
  shows "boyer_moore_search text pattern = Some (Inr (- 1))"
    and "kmp_search text pattern = Some (Inr (- 1))"
proof -
  have ne: "pattern \<noteq> []" using assms by auto
  have none: "\<not> occurs_at text pattern k" for k
    using assms by (simp add: occurs_at_def)
  from boyer_moore_search_correct [OF ne, of "text"] none
  show "boyer_moore_search text pattern = Some (Inr (- 1))"
    by (auto simp: first_match_def)
  from kmp_search_correct [OF ne, of "text"] none
  show "kmp_search text pattern = Some (Inr (- 1))"
    by (auto simp: first_match_def)
qed

lemma rabin_karp_sentinel_on_long_pattern:
  "length text < length pattern \<Longrightarrow> rabin_karp_search text pattern = Inr (- 1)"
  by (simp add: rabin_karp_search_def)

text \<open>
  Claim C3, at the input \<open>search("x", "")\<close>: \<open>boyer_moore_search\<close> and
  \<open>rabin_karp_search\<close> return -1 there, as they do on \<open>search("", "x")\<close>, but
  \<open>kmp_search\<close> has no guard for the empty pattern and raises IndexError when it reads
  \<open>pattern[0]\<close>.
\<close>

theorem kmp_search_raises_on_empty_pattern:
  "kmp_search (str ''x'') (str '''') = Some (Inl IndexError)
   \<and> boyer_moore_search (str ''x'') (str '''') = Some (Inr (- 1))
   \<and> rabin_karp_search (str ''x'') (str '''') = Inr (- 1)
   \<and> kmp_search (str '''') (str ''x'') = Some (Inr (- 1))
   \<and> boyer_moore_search (str '''') (str ''x'') = Some (Inr (- 1))
   \<and> rabin_karp_search (str '''') (str ''x'') = Inr (- 1)"
  by (simp add: str_def kmp_search_empty_pattern sentinel_on_degenerate_input)

text \<open>
  Claim C2, at the pair \<open>("x", "")\<close>: the three searches do not return equal results,
  since \<open>kmp_search\<close> raises where the other two return -1.
\<close>

theorem searches_disagree_on_empty_pattern:
  "kmp_search (str ''x'') (str '''') \<noteq> boyer_moore_search (str ''x'') (str '''')
   \<and> kmp_search (str ''x'') (str '''') \<noteq> Some (rabin_karp_search (str ''x'') (str ''''))"
  by (simp add: str_def kmp_search_empty_pattern sentinel_on_degenerate_input)

end
